theory Spec2Isabelle
  imports Main "HOL-Library.Word"
begin

unbundle bit_operations_syntax

section \<open>Data model\<close>

type_synonym uint8 = "8 word"
type_synonym uint16 = "16 word"
type_synonym uint32 = "32 word"

text \<open>
  A packet of the simulator is a byte buffer; a null smart pointer is \<open>None\<close>.
  A matrix is a vector of rows, as \<open>std::vector<std::vector<uint8_t>>\<close>.
\<close>

type_synonym packet = "uint8 list"
type_synonym matrix = "uint8 list list"

subsection \<open>GaloisField: the lookup tables\<close>

record gf_tables =
  m_logTable :: "uint8 list"
  m_expTable :: "uint8 list"

definition FIELD_SIZE :: nat where
  "FIELD_SIZE = 256"

definition poly :: uint16 where
  "poly = 0x11d"

text \<open>
  One round of the first loop of \<open>InitTables\<close>, on the 16-bit variable \<open>x\<close>:
  \<open>x = x << 1; if (x & 0x100) x = (x ^ poly) & 0xff\<close>.
\<close>

definition mul_alpha :: "uint16 \<Rightarrow> uint16" where
  "mul_alpha x =
     (let x1 = push_bit 1 x
      in if x1 AND 0x100 \<noteq> 0 then (x1 XOR poly) AND 0xff else x1)"

definition exp_step :: "nat \<Rightarrow> uint16 \<times> gf_tables \<Rightarrow> uint16 \<times> gf_tables" where
  "exp_step i s =
     (case s of (x, t) \<Rightarrow>
        let t1 = t\<lparr>m_expTable := (m_expTable t)[i := ucast x]\<rparr>;
            t2 = t1\<lparr>m_logTable := (m_logTable t1)[unat x := of_nat i]\<rparr>
        in (mul_alpha x, t2))"

definition extend_step :: "nat \<Rightarrow> gf_tables \<Rightarrow> gf_tables" where
  "extend_step i t =
     t\<lparr>m_expTable := (m_expTable t)[i := m_expTable t ! (i - (FIELD_SIZE - 1))]\<rparr>"

definition tables0 :: gf_tables where
  "tables0 = \<lparr>m_logTable = replicate FIELD_SIZE 0, m_expTable = replicate (2 * FIELD_SIZE) 0\<rparr>"

definition InitTables :: gf_tables where
  "InitTables =
     (let t1 = snd (fold exp_step [0..<FIELD_SIZE - 1] (1, tables0));
          t2 = t1\<lparr>m_logTable := (m_logTable t1)[0 := 0]\<rparr>
      in fold extend_step [FIELD_SIZE - 1..<2 * FIELD_SIZE - 1] t2)"

text \<open>The field object every encoder and decoder holds: the tables after construction.\<close>

definition gf :: gf_tables where
  "gf = InitTables"

subsection \<open>GaloisField: the operations\<close>

text \<open>
  The sum of two logarithms is at most 510 and the difference lies between -255 and 255,
  so the 16-bit variables \<open>sum\<close>, \<open>diff\<close> and \<open>index\<close> of the source never wrap;
  they are natural numbers and integers here.
\<close>

definition Add :: "uint8 \<Rightarrow> uint8 \<Rightarrow> uint8" where
  "Add a b = a XOR b"

definition Subtract :: "uint8 \<Rightarrow> uint8 \<Rightarrow> uint8" where
  "Subtract a b = Add a b"

definition Multiply :: "uint8 \<Rightarrow> uint8 \<Rightarrow> uint8" where
  "Multiply a b =
     (if a = 0 \<or> b = 0 then 0
      else
        let sum = unat (m_logTable gf ! unat a) + unat (m_logTable gf ! unat b);
            sum' = (if sum \<ge> FIELD_SIZE - 1 then sum mod (FIELD_SIZE - 1) else sum)
        in m_expTable gf ! sum')"

text \<open>
  \<open>Divide\<close> and \<open>Inverse\<close> return a plain \<open>uint8_t\<close>. On a zero divisor they log
  an error and return 0; the log line is not part of the returned value.
\<close>

definition Divide :: "uint8 \<Rightarrow> uint8 \<Rightarrow> uint8" where
  "Divide a b =
     (if b = 0 then 0
      else if a = 0 then 0
      else
        let diff = int (unat (m_logTable gf ! unat a)) - int (unat (m_logTable gf ! unat b));
            diff' = (if diff < 0 then diff + int (FIELD_SIZE - 1) else diff)
        in m_expTable gf ! nat diff')"

definition Inverse :: "uint8 \<Rightarrow> uint8" where
  "Inverse a =
     (if a = 0 then 0
      else
        let index = (FIELD_SIZE - 1) - unat (m_logTable gf ! unat a)
        in m_expTable gf ! index)"

section \<open>The simulator's packet buffer\<close>

text \<open>
  \<open>Packet\<close> and \<open>Buffer::Iterator\<close> belong to the simulator library. What the coding
  classes use of them: a packet is a sequence of bytes; \<open>Create<Packet>(buf, n)\<close> holds
  the \<open>n\<close> bytes at \<open>buf\<close>; \<open>GetSize\<close> is the length; \<open>CopyData(buf, n)\<close> writes
  the first \<open>min n size\<close> bytes; \<open>AddHeader\<close> puts the header's serialization in front
  and \<open>RemoveHeader\<close> deserializes from the front and drops as many bytes as
  \<open>Deserialize\<close> returned. Multi-byte fields are written in network byte order.
\<close>

definition WriteHtonU32 :: "uint32 \<Rightarrow> uint8 list" where
  "WriteHtonU32 v = [ucast (drop_bit 24 v), ucast (drop_bit 16 v), ucast (drop_bit 8 v), ucast v]"

definition WriteHtonU16 :: "uint16 \<Rightarrow> uint8 list" where
  "WriteHtonU16 v = [ucast (drop_bit 8 v), ucast v]"

definition ReadNtohU32 :: "uint8 list \<Rightarrow> uint32" where
  "ReadNtohU32 bs =
     push_bit 24 (ucast (bs ! 0)) OR push_bit 16 (ucast (bs ! 1)) OR
     push_bit 8 (ucast (bs ! 2)) OR ucast (bs ! 3)"

definition ReadNtohU16 :: "uint8 list \<Rightarrow> uint16" where
  "ReadNtohU16 bs = push_bit 8 (ucast (bs ! 0)) OR ucast (bs ! 1)"

text \<open>\<open>CopyData\<close> into a zero-filled buffer of \<open>n\<close> bytes.\<close>

definition copy_data :: "nat \<Rightarrow> packet \<Rightarrow> uint8 list" where
  "copy_data n pkt = take (min (length pkt) n) pkt @ replicate (n - min (length pkt) n) 0"

section \<open>NetworkCodingHeader\<close>

text \<open>
  The fields \<open>m_generationId\<close>, \<open>m_generationSize\<close> and \<open>m_coefficients\<close> of the header
  carry the prefix \<open>h_\<close> here, as the decoder has fields of the same names.
\<close>

record NetworkCodingHeader =
  h_generationId :: uint32
  h_generationSize :: uint16
  h_coefficients :: "uint8 list"

definition new_header :: NetworkCodingHeader where
  "new_header = \<lparr>h_generationId = 0, h_generationSize = 0, h_coefficients = []\<rparr>"

definition Serialize :: "NetworkCodingHeader \<Rightarrow> uint8 list" where
  "Serialize h =
     WriteHtonU32 (h_generationId h) @
     WriteHtonU16 (h_generationSize h) @
     WriteHtonU16 (of_nat (length (h_coefficients h))) @
     map (\<lambda>i. if i < length (h_coefficients h) then h_coefficients h ! i else 0)
       [0..<unat (h_generationSize h)]"

definition GetSerializedSize :: "NetworkCodingHeader \<Rightarrow> nat" where
  "GetSerializedSize h = 8 + unat (h_generationSize h)"

text \<open>
  The reading loop of \<open>Deserialize\<close>: \<open>n\<close> coefficients, one byte each. The flag is
  \<open>False\<close> when the buffer runs out first; the coefficients read so far stay in the header.
\<close>

fun read_coefficients :: "nat \<Rightarrow> uint8 list \<Rightarrow> uint8 list \<Rightarrow> bool \<times> uint8 list" where
  "read_coefficients 0 buf acc = (True, acc)"
| "read_coefficients (Suc n) [] acc = (False, acc)"
| "read_coefficients (Suc n) (b # buf) acc = read_coefficients n buf (acc @ [b])"

text \<open>
  \<open>Deserialize\<close> returns the number of bytes read, 0 on every failure, and the header it
  has filled in. The eight bytes of the fixed fields are read without a check, as in the
  source; on a shorter buffer these reads fall outside the buffer and their values are
  left open, so statements about arbitrary packets assume at least eight bytes.
\<close>

definition Deserialize :: "NetworkCodingHeader \<Rightarrow> uint8 list \<Rightarrow> nat \<times> NetworkCodingHeader" where
  "Deserialize h start =
     (let h1 = h\<lparr>h_generationId := ReadNtohU32 start\<rparr>;
          h2 = h1\<lparr>h_generationSize := ReadNtohU16 (drop 4 start)\<rparr>;
          numCoeffs = ReadNtohU16 (drop 6 start)
      in if numCoeffs \<noteq> h_generationSize h2 then (0, h2)
         else if h_generationSize h2 = 0 \<or> h_generationSize h2 > 255 then (0, h2)
         else
           (case read_coefficients (unat (h_generationSize h2)) (drop 8 start) [] of
              (ok, cs) \<Rightarrow>
                let h3 = h2\<lparr>h_coefficients := cs\<rparr>
                in if ok then (GetSerializedSize h3, h3) else (0, h3)))"

definition AddHeader :: "NetworkCodingHeader \<Rightarrow> packet \<Rightarrow> packet" where
  "AddHeader h pkt = Serialize h @ pkt"

definition RemoveHeader :: "NetworkCodingHeader \<Rightarrow> packet \<Rightarrow> nat \<times> NetworkCodingHeader \<times> packet" where
  "RemoveHeader h pkt =
     (case Deserialize h pkt of (deserialized, h') \<Rightarrow> (deserialized, h', drop deserialized pkt))"

section \<open>NetworkCodingEncoder\<close>

text \<open>
  The encoder's fields carry the prefix \<open>e_\<close>. The \<open>std::map\<close> from sequence number to
  packet is an association list kept in increasing key order, the order in which the map
  is iterated.
\<close>

record NetworkCodingEncoder =
  e_generationSize :: uint16
  e_packetSize :: uint16
  e_currentGeneration :: uint32
  e_generationPackets :: "(uint32 \<times> packet) list"

definition new_encoder :: "uint16 \<Rightarrow> uint16 \<Rightarrow> NetworkCodingEncoder" where
  "new_encoder generationSize packetSize =
     \<lparr>e_generationSize = generationSize, e_packetSize = packetSize,
      e_currentGeneration = 0, e_generationPackets = []\<rparr>"

fun map_insert :: "uint32 \<Rightarrow> packet \<Rightarrow> (uint32 \<times> packet) list \<Rightarrow> (uint32 \<times> packet) list" where
  "map_insert k v [] = [(k, v)]"
| "map_insert k v ((k', v') # m) =
     (if k < k' then (k, v) # (k', v') # m
      else if k = k' then (k, v) # m
      else (k', v') # map_insert k v m)"

definition AddPacket ::
  "NetworkCodingEncoder \<Rightarrow> packet option \<Rightarrow> uint32 \<Rightarrow> bool \<times> NetworkCodingEncoder" where
  "AddPacket e packet seqNum =
     (case packet of
        None \<Rightarrow> (False, e)
      | Some data \<Rightarrow>
          if length (e_generationPackets e) \<ge> unat (e_generationSize e) then (False, e)
          else if map_of (e_generationPackets e) seqNum \<noteq> None then (False, e)
          else
            let newPacket =
                  (if length data = unat (e_packetSize e) then data
                   else
                     let buffer = replicate (unat (e_packetSize e)) 0;
                         copySize = min (length data) (unat (e_packetSize e))
                     in take copySize data @ drop copySize buffer)
            in (True, e\<lparr>e_generationPackets := map_insert seqNum newPacket (e_generationPackets e)\<rparr>))"

text \<open>
  \<open>GenerateCodedPacket\<close> draws its coefficients from a random device. The model takes
  the draws as a parameter: \<open>rnd k\<close> is the value of the \<open>k\<close>-th call of \<open>dis(gen)\<close>.
\<close>

definition draw_step ::
  "nat \<Rightarrow> (nat \<Rightarrow> uint8) \<Rightarrow> uint32 \<times> packet \<Rightarrow> uint8 list \<times> nat \<Rightarrow> uint8 list \<times> nat" where
  "draw_step n rnd pair s =
     (case s of (coefficients, packetIndex) \<Rightarrow>
        if packetIndex < n
        then (coefficients[packetIndex := rnd packetIndex], packetIndex + 1)
        else (coefficients, packetIndex))"

definition draw_coefficients ::
  "nat \<Rightarrow> (nat \<Rightarrow> uint8) \<Rightarrow> (uint32 \<times> packet) list \<Rightarrow> uint8 list" where
  "draw_coefficients n rnd packets = fst (fold (draw_step n rnd) packets (replicate n 0, 0))"

definition accumulate :: "nat \<Rightarrow> uint8 \<Rightarrow> uint8 list \<Rightarrow> uint8 list \<Rightarrow> uint8 list" where
  "accumulate p coeff packetData codedPayload =
     fold (\<lambda>i cp. cp[i := Add (cp ! i) (Multiply coeff (packetData ! i))]) [0..<p] codedPayload"

definition code_step ::
  "nat \<Rightarrow> nat \<Rightarrow> uint8 list \<Rightarrow> uint32 \<times> packet \<Rightarrow> uint8 list \<times> nat \<Rightarrow> uint8 list \<times> nat" where
  "code_step n p coefficients pair s =
     (case s of (codedPayload, packetIndex) \<Rightarrow>
        (if packetIndex < n \<and> coefficients ! packetIndex \<noteq> 0
         then accumulate p (coefficients ! packetIndex) (copy_data p (snd pair)) codedPayload
         else codedPayload,
         packetIndex + 1))"

definition code_payload ::
  "nat \<Rightarrow> nat \<Rightarrow> uint8 list \<Rightarrow> (uint32 \<times> packet) list \<Rightarrow> uint8 list" where
  "code_payload n p coefficients packets =
     fst (fold (code_step n p coefficients) packets (replicate p 0, 0))"

definition GenerateCodedPacket ::
  "NetworkCodingEncoder \<Rightarrow> (nat \<Rightarrow> uint8) \<Rightarrow> packet option \<times> NetworkCodingEncoder" where
  "GenerateCodedPacket e rnd =
     (if e_generationPackets e = [] then (None, e)
      else
        let n = unat (e_generationSize e);
            p = unat (e_packetSize e);
            coefficients = draw_coefficients n rnd (e_generationPackets e);
            codedPayload = code_payload n p coefficients (e_generationPackets e);
            header = new_header\<lparr>h_generationId := e_currentGeneration e,
                                h_generationSize := e_generationSize e,
                                h_coefficients := coefficients\<rparr>
        in (Some (AddHeader header (take p codedPayload)), e))"

text \<open>Calling \<open>GenerateCodedPacket\<close> once for each element of a list of draws.\<close>

definition generate_many ::
  "NetworkCodingEncoder \<Rightarrow> (nat \<Rightarrow> uint8) list \<Rightarrow> packet option list \<times> NetworkCodingEncoder" where
  "generate_many e rnds =
     fold (\<lambda>rnd (out, e'). case GenerateCodedPacket e' rnd of (pkt, e'') \<Rightarrow> (out @ [pkt], e''))
       rnds ([], e)"

section \<open>NetworkCodingDecoder\<close>

record NetworkCodingDecoder =
  m_generationSize :: uint16
  m_packetSize :: uint16
  m_currentGeneration :: uint32
  m_decoded :: bool
  m_receivedSequences :: "uint32 set"
  m_coefficients :: matrix
  m_codedPayloads :: matrix
  m_decodedPackets :: "packet list"

definition new_decoder :: "uint16 \<Rightarrow> uint16 \<Rightarrow> NetworkCodingDecoder" where
  "new_decoder generationSize packetSize =
     \<lparr>m_generationSize = generationSize, m_packetSize = packetSize,
      m_currentGeneration = 0, m_decoded = False, m_receivedSequences = {},
      m_coefficients = replicate (unat generationSize) (replicate (unat generationSize) 0),
      m_codedPayloads = replicate (unat generationSize) (replicate (unat packetSize) 0),
      m_decodedPackets = []\<rparr>"

text \<open>\<open>matrix[i][k] = v\<close> and \<open>std::swap(matrix[a], matrix[b])\<close>.\<close>

definition set_entry :: "matrix \<Rightarrow> nat \<Rightarrow> nat \<Rightarrow> uint8 \<Rightarrow> matrix" where
  "set_entry m i k v = m[i := (m ! i)[k := v]]"

definition swap_rows :: "nat \<Rightarrow> nat \<Rightarrow> matrix \<Rightarrow> matrix" where
  "swap_rows a b m = m[a := m ! b, b := m ! a]"

text \<open>
  The loop \<open>for k in lo..<hi: m[j][k] = Subtract(m[j][k], Multiply(factor, m[i][k]))\<close>,
  used by the rank computation (from the pivot column on) and by the decoder (whole row).
\<close>

definition elim_row :: "nat \<Rightarrow> nat \<Rightarrow> nat \<Rightarrow> nat \<Rightarrow> uint8 \<Rightarrow> matrix \<Rightarrow> matrix" where
  "elim_row lo hi i j factor matrix =
     fold (\<lambda>k m. set_entry m j k (Subtract (m ! j ! k) (Multiply factor (m ! i ! k))))
       [lo..<hi] matrix"

subsection \<open>CalculateRank\<close>

function find_pivot_rank :: "nat \<Rightarrow> nat \<Rightarrow> matrix \<Rightarrow> nat \<Rightarrow> nat" where
  "find_pivot_rank n j matrix pivotRow =
     (if pivotRow < n \<and> matrix ! pivotRow ! j = 0
      then find_pivot_rank n j matrix (Suc pivotRow)
      else pivotRow)"
  by pat_completeness auto

termination
  by (relation "measure (\<lambda>(n, j, matrix, pivotRow). n - pivotRow)") auto

declare find_pivot_rank.simps [simp del]

definition rank_elim_below :: "nat \<Rightarrow> nat \<Rightarrow> nat \<Rightarrow> matrix \<Rightarrow> matrix" where
  "rank_elim_below n j rank matrix =
     fold (\<lambda>i m.
             if m ! i ! j \<noteq> 0
             then let factor = Divide (m ! i ! j) (m ! rank ! j)
                  in elim_row j n rank i factor m
             else m)
       [rank + 1..<n] matrix"

definition rank_column :: "nat \<Rightarrow> nat \<Rightarrow> matrix \<times> nat \<Rightarrow> matrix \<times> nat" where
  "rank_column n j s =
     (case s of (matrix, rank) \<Rightarrow>
        let pivotRow = find_pivot_rank n j matrix rank
        in if pivotRow < n
           then
             let m1 = (if pivotRow \<noteq> rank then swap_rows rank pivotRow matrix else matrix);
                 m2 = rank_elim_below n j rank m1
             in (m2, rank + 1)
           else (matrix, rank))"

text \<open>
  The rank is counted in a \<open>uint16_t\<close>; it grows by at most one for each of the at most
  65535 columns, so it never wraps and is a natural number here.
\<close>

definition CalculateRank :: "NetworkCodingDecoder \<Rightarrow> nat" where
  "CalculateRank d =
     (let n = unat (m_generationSize d)
      in snd (fold (rank_column n) [0..<n] (m_coefficients d, 0)))"

text \<open>
  \<open>GetRank\<close> and \<open>CanDecode\<close> are \<open>const\<close> methods; called on a decoder they return
  a value and the decoder they were called on.
\<close>

definition GetRank :: "NetworkCodingDecoder \<Rightarrow> nat \<times> NetworkCodingDecoder" where
  "GetRank d = (CalculateRank d, d)"

definition CanDecode :: "NetworkCodingDecoder \<Rightarrow> bool \<times> NetworkCodingDecoder" where
  "CanDecode d = (case GetRank d of (rank, d') \<Rightarrow> (rank = unat (m_generationSize d'), d'))"

subsection \<open>DecodeGeneration\<close>

definition find_pivot_decode :: "nat \<Rightarrow> nat \<Rightarrow> matrix \<Rightarrow> nat" where
  "find_pivot_decode n i coeffMatrix =
     (case find (\<lambda>j. coeffMatrix ! j ! i \<noteq> 0) [i + 1..<n] of None \<Rightarrow> i | Some j \<Rightarrow> j)"

definition scale_row :: "nat \<Rightarrow> nat \<Rightarrow> uint8 \<Rightarrow> matrix \<Rightarrow> matrix" where
  "scale_row len i pivotInv matrix =
     fold (\<lambda>j m. set_entry m i j (Multiply (m ! i ! j) pivotInv)) [0..<len] matrix"

definition eliminate_column :: "nat \<Rightarrow> nat \<Rightarrow> nat \<Rightarrow> matrix \<times> matrix \<Rightarrow> matrix \<times> matrix" where
  "eliminate_column n p i s =
     fold (\<lambda>j (coeffMatrix, payloadMatrix).
             if j \<noteq> i \<and> coeffMatrix ! j ! i \<noteq> 0
             then let factor = coeffMatrix ! j ! i
                  in (elim_row 0 n i j factor coeffMatrix, elim_row 0 p i j factor payloadMatrix)
             else (coeffMatrix, payloadMatrix))
       [0..<n] s"

text \<open>One round of the outer loop; \<open>None\<close> is the \<open>return\<close> on a singular matrix.\<close>

definition gj_step :: "nat \<Rightarrow> nat \<Rightarrow> nat \<Rightarrow> matrix \<times> matrix \<Rightarrow> (matrix \<times> matrix) option" where
  "gj_step n p i s =
     (case s of (coeffMatrix, payloadMatrix) \<Rightarrow>
        let pivotRow = find_pivot_decode n i coeffMatrix
        in if coeffMatrix ! pivotRow ! i = 0 then None
           else
             let c1 = (if pivotRow \<noteq> i then swap_rows i pivotRow coeffMatrix else coeffMatrix);
                 y1 = (if pivotRow \<noteq> i then swap_rows i pivotRow payloadMatrix else payloadMatrix);
                 pivot = c1 ! i ! i
             in if pivot = 0 then None
                else
                  let pivotInv = Inverse pivot;
                      c2 = scale_row n i pivotInv c1;
                      y2 = scale_row p i pivotInv y1
                  in Some (eliminate_column n p i (c2, y2)))"

definition gauss_jordan :: "nat \<Rightarrow> nat \<Rightarrow> matrix \<Rightarrow> matrix \<Rightarrow> (matrix \<times> matrix) option" where
  "gauss_jordan n p coeffMatrix payloadMatrix =
     fold (\<lambda>i s. case s of None \<Rightarrow> None | Some cy \<Rightarrow> gj_step n p i cy)
       [0..<n] (Some (coeffMatrix, payloadMatrix))"

text \<open>
  The part of \<open>DecodeGeneration\<close> behind its two guards: elimination on copies of the two
  matrices, then the decoded packets and the flag.
\<close>

definition decode_elimination :: "NetworkCodingDecoder \<Rightarrow> NetworkCodingDecoder" where
  "decode_elimination d =
     (let n = unat (m_generationSize d); p = unat (m_packetSize d)
      in case gauss_jordan n p (m_coefficients d) (m_codedPayloads d) of
           None \<Rightarrow> d
         | Some (coeffMatrix, payloadMatrix) \<Rightarrow>
             d\<lparr>m_decodedPackets := map (\<lambda>i. take p (payloadMatrix ! i)) [0..<n],
               m_decoded := True\<rparr>)"

definition DecodeGeneration :: "NetworkCodingDecoder \<Rightarrow> NetworkCodingDecoder" where
  "DecodeGeneration d =
     (if m_decoded d then d
      else if \<not> fst (CanDecode d) then d
      else decode_elimination d)"

definition GetDecodedPackets :: "NetworkCodingDecoder \<Rightarrow> packet list \<times> NetworkCodingDecoder" where
  "GetDecodedPackets d =
     (let d' = (if \<not> m_decoded d \<and> fst (CanDecode d) then DecodeGeneration d else d)
      in (m_decodedPackets d', d'))"

subsection \<open>ProcessCodedPacket\<close>

definition row_empty :: "nat \<Rightarrow> uint8 list \<Rightarrow> bool" where
  "row_empty n row = list_all (\<lambda>j. row ! j = 0) [0..<n]"

definition find_empty_row :: "nat \<Rightarrow> matrix \<Rightarrow> nat option" where
  "find_empty_row n m = find (\<lambda>i. row_empty n (m ! i)) [0..<n]"

definition ProcessCodedPacket ::
  "NetworkCodingDecoder \<Rightarrow> packet option \<Rightarrow> bool \<times> NetworkCodingDecoder" where
  "ProcessCodedPacket d packet =
     (case packet of
        None \<Rightarrow> (False, d)
      | Some pkt \<Rightarrow>
          if m_decoded d then (False, d)
          else
            (case RemoveHeader new_header pkt of (headerSize, header, packetCopy) \<Rightarrow>
               if headerSize = 0 then (False, d)
               else if h_generationId header \<noteq> m_currentGeneration d then (False, d)
               else if h_coefficients header = [] then (False, d)
               else
                 let n = unat (m_generationSize d);
                     p = unat (m_packetSize d);
                     coefficients = h_coefficients header;
                     paddedCoeffs =
                       fold (\<lambda>i padded. padded[i := coefficients ! i])
                         [0..<min (length coefficients) n] (replicate n 0);
                     payload = copy_data p packetCopy
                 in case find_empty_row n (m_coefficients d) of
                      None \<Rightarrow> (False, d)
                    | Some i \<Rightarrow>
                        let d1 = d\<lparr>m_coefficients := (m_coefficients d)[i := paddedCoeffs],
                                   m_codedPayloads := (m_codedPayloads d)[i := payload]\<rparr>
                        in (True, if fst (CanDecode d1) then DecodeGeneration d1 else d1)))"

text \<open>Feeding a list of packets to the decoder, one call each, collecting the results.\<close>

definition feed ::
  "NetworkCodingDecoder \<Rightarrow> packet option list \<Rightarrow> bool list \<times> NetworkCodingDecoder" where
  "feed d pkts =
     fold (\<lambda>pkt (rs, d'). case ProcessCodedPacket d' pkt of (r, d'') \<Rightarrow> (rs @ [r], d''))
       pkts ([], d)"

section \<open>Auxiliary notions for the proofs\<close>

text \<open>Multiplication by the generator on bytes, and the powers of the generator.\<close>

definition xtime :: "uint8 \<Rightarrow> uint8" where
  "xtime a = (if bit a 7 then push_bit 1 a XOR 0x1d else push_bit 1 a)"

definition xpow :: "nat \<Rightarrow> uint8" where
  "xpow n = (xtime ^^ n) 1"

primrec all_below :: "nat \<Rightarrow> (nat \<Rightarrow> bool) \<Rightarrow> bool" where
  "all_below 0 P = True"
| "all_below (Suc n) P = (P n \<and> all_below n P)"

text \<open>\<open>no_unit n x\<close>: none of \<open>x, xtime x, ...\<close> (\<open>n\<close> values) is 1.\<close>

primrec no_unit :: "nat \<Rightarrow> uint8 \<Rightarrow> bool" where
  "no_unit 0 x = True"
| "no_unit (Suc n) x = (x \<noteq> 1 \<and> no_unit n (xtime x))"

text \<open>\<open>xrun n x\<close> applies \<open>xtime\<close> to \<open>x\<close>, \<open>n\<close> times, accumulating.\<close>

primrec xrun :: "nat \<Rightarrow> uint8 \<Rightarrow> uint8" where
  "xrun 0 x = x"
| "xrun (Suc n) x = xrun n (xtime x)"

text \<open>The two loops of \<open>InitTables\<close>, stopped after \<open>n\<close> rounds.\<close>

definition run1 :: "nat \<Rightarrow> uint16 \<times> gf_tables" where
  "run1 n = fold exp_step [0..<n] (1, tables0)"

definition run2 :: "nat \<Rightarrow> gf_tables \<Rightarrow> gf_tables" where
  "run2 k t = fold extend_step [255..<255 + k] t"

text \<open>Sums in the field, and the linear algebra of lists of rows.\<close>

primrec gsum :: "nat \<Rightarrow> (nat \<Rightarrow> uint8) \<Rightarrow> uint8" where
  "gsum 0 f = 0"
| "gsum (Suc n) f = Add (gsum n f) (f n)"

definition dot :: "nat \<Rightarrow> uint8 list \<Rightarrow> uint8 list \<Rightarrow> uint8" where
  "dot n r x = gsum n (\<lambda>k. Multiply (r ! k) (x ! k))"

definition mat_mult :: "nat \<Rightarrow> matrix \<Rightarrow> matrix \<Rightarrow> matrix" where
  "mat_mult n B A =
     map (\<lambda>i. map (\<lambda>k. gsum n (\<lambda>m. Multiply (B ! i ! m) (A ! m ! k))) [0..<n]) [0..<n]"

definition identity :: "nat \<Rightarrow> matrix" where
  "identity n = map (\<lambda>i. map (\<lambda>k. if i = k then 1 else 0) [0..<n]) [0..<n]"

definition dims :: "nat \<Rightarrow> nat \<Rightarrow> matrix \<Rightarrow> bool" where
  "dims n p M \<longleftrightarrow> length M = n \<and> (\<forall>i<n. length (M ! i) = p)"

definition ker :: "nat \<Rightarrow> matrix \<Rightarrow> uint8 list \<Rightarrow> bool" where
  "ker n M x \<longleftrightarrow> (\<forall>i<n. dot n (M ! i) x = 0)"

definition inj_mat :: "nat \<Rightarrow> matrix \<Rightarrow> bool" where
  "inj_mat n M \<longleftrightarrow> (\<forall>x. length x = n \<longrightarrow> ker n M x \<longrightarrow> (\<forall>k<n. x ! k = 0))"

definition col :: "nat \<Rightarrow> matrix \<Rightarrow> nat \<Rightarrow> uint8 list" where
  "col n S b = map (\<lambda>k. S ! k ! b) [0..<n]"

definition sol :: "nat \<Rightarrow> nat \<Rightarrow> matrix \<Rightarrow> matrix \<Rightarrow> matrix \<Rightarrow> bool" where
  "sol n p C Y S \<longleftrightarrow> (\<forall>i<n. \<forall>b<p. dot n (C ! i) (col n S b) = Y ! i ! b)"

definition unit_cols :: "nat \<Rightarrow> nat \<Rightarrow> matrix \<Rightarrow> bool" where
  "unit_cols n i C \<longleftrightarrow> (\<forall>r<n. \<forall>k<i. C ! r ! k = (if r = k then 1 else 0))"
text \<open>
  The invariant of the decoder's elimination before round \<open>i\<close>: the first \<open>i\<close> columns
  of the coefficient matrix are unit vectors, its kernel is trivial, and the source
  payloads \<open>S\<close> solve the system.
\<close>

definition gj_inv :: "nat \<Rightarrow> nat \<Rightarrow> nat \<Rightarrow> matrix \<Rightarrow> matrix \<Rightarrow> matrix \<Rightarrow> bool" where
  "gj_inv n p i C Y S \<longleftrightarrow>
     dims n n C \<and> dims n p Y \<and> unit_cols n i C \<and> inj_mat n C \<and> sol n p C Y S"

text \<open>The loop of \<open>rank_elim_below\<close>, stopped before row \<open>m\<close>.\<close>

definition rank_elim_upto :: "nat \<Rightarrow> nat \<Rightarrow> nat \<Rightarrow> nat \<Rightarrow> matrix \<Rightarrow> matrix" where
  "rank_elim_upto n j rank m matrix =
     fold (\<lambda>i m.
             if m ! i ! j \<noteq> 0
             then let factor = Divide (m ! i ! j) (m ! rank ! j)
                  in elim_row j n rank i factor m
             else m)
       [rank + 1..<m] matrix"

text \<open>
  The invariant of the rank computation on a matrix with trivial kernel, before column
  \<open>j\<close>: every column so far had a pivot, so the first \<open>j\<close> columns are upper triangular
  with a nonzero diagonal.
\<close>

definition rk_inv :: "nat \<Rightarrow> nat \<Rightarrow> matrix \<Rightarrow> bool" where
  "rk_inv n j M \<longleftrightarrow>
     dims n n M \<and> inj_mat n M \<and> (\<forall>k<j. M ! k ! k \<noteq> 0) \<and>
     (\<forall>k<j. \<forall>i. k < i \<and> i < n \<longrightarrow> M ! i ! k = 0)"

text \<open>
  The decoder after \<open>k\<close> packets of a generation have been stored and none decoded: the
  first \<open>k\<close> rows of the coefficient matrix \<open>A\<close> and of the payload matrix \<open>Y\<close>, zeros below.
\<close>

definition partial_decoder ::
  "uint16 \<Rightarrow> uint16 \<Rightarrow> matrix \<Rightarrow> matrix \<Rightarrow> nat \<Rightarrow> NetworkCodingDecoder" where
  "partial_decoder gs ps A Y k =
     (new_decoder gs ps)
       \<lparr>m_coefficients := take k A @ replicate (unat gs - k) (replicate (unat gs) 0),
        m_codedPayloads := take k Y @ replicate (unat gs - k) (replicate (unat ps) 0)\<rparr>"

text \<open>The coded packet with coefficient row \<open>c\<close> and payload \<open>y\<close>, for generation 0.\<close>

definition coded_packet :: "uint16 \<Rightarrow> uint8 list \<Rightarrow> uint8 list \<Rightarrow> packet option" where
  "coded_packet gs c y =
     Some (AddHeader \<lparr>h_generationId = 0, h_generationSize = gs, h_coefficients = c\<rparr> y)"

section \<open>The field tables\<close>

lemma xtime_xor: "xtime (a XOR b) = xtime a XOR xtime b"
  unfolding xtime_def
  by (simp add: bit_xor_iff push_bit_xor xor.assoc xor.commute xor.left_commute)

lemma all_below_iff: "all_below n P \<longleftrightarrow> (\<forall>k<n. P k)"
  by (induction n) (auto simp: less_Suc_eq)

lemma all_below_numeral:
  "all_below (numeral k) P = (P (pred_numeral k) \<and> all_below (pred_numeral k) P)"
  by (simp add: numeral_eq_Suc)

lemma uint8_all:
  assumes "all_below 256 (\<lambda>n. P (of_nat n :: uint8))"
  shows "P a"
proof -
  have "unat a < 256"
    using unsigned_less [of a, where 'a = nat] by simp
  with assms have "P (of_nat (unat a))"
    by (auto simp: all_below_iff)
  then show "P a" by simp
qed

lemma mul_alpha_ucast: "mul_alpha (ucast a) = ucast (xtime a)"
  by (rule uint8_all [of _ a]) (simp add: all_below_numeral mul_alpha_def xtime_def poly_def)

lemma xtime_zero_iff: "xtime a = 0 \<longleftrightarrow> a = 0"
  by (rule uint8_all [of _ a]) (simp add: all_below_numeral xtime_def)

lemma xtime_inj: "xtime a = xtime b \<Longrightarrow> a = b"
proof -
  assume "xtime a = xtime b"
  then have "xtime (a XOR b) = 0" by (simp add: xtime_xor)
  then have z: "a XOR b = 0" by (simp add: xtime_zero_iff)
  have "a = (a XOR b) XOR b" by (simp add: xor.assoc)
  then show "a = b" by (simp add: z)
qed

lemma funpow_xtime_inj: "(xtime ^^ n) a = (xtime ^^ n) b \<Longrightarrow> a = b"
  by (induction n) (auto dest: xtime_inj)

lemma funpow_xtime_xor: "(xtime ^^ n) (a XOR b) = (xtime ^^ n) a XOR (xtime ^^ n) b"
  by (induction n) (simp_all add: xtime_xor)

lemma funpow_xtime_zero: "(xtime ^^ n) 0 = 0"
  by (induction n) (simp_all add: xtime_zero_iff)

lemma xpow_0: "xpow 0 = 1"
  by (simp add: xpow_def)

lemma xpow_Suc: "xpow (Suc n) = xtime (xpow n)"
  by (simp add: xpow_def)

lemma xpow_add: "xpow (i + j) = (xtime ^^ i) (xpow j)"
  by (simp add: xpow_def funpow_add)

lemma xpow_nonzero: "xpow n \<noteq> 0"
  by (induction n) (simp_all add: xpow_0 xpow_Suc xtime_zero_iff)

lemma no_unit_numeral:
  "no_unit (numeral k) x = (x \<noteq> 1 \<and> no_unit (pred_numeral k) (xtime x))"
  by (simp add: numeral_eq_Suc)

lemma no_unit_funpow: "no_unit n x \<Longrightarrow> d < n \<Longrightarrow> (xtime ^^ d) x \<noteq> 1"
proof (induction n arbitrary: x d)
  case 0
  then show ?case by simp
next
  case (Suc n)
  show ?case
  proof (cases d)
    case 0
    with Suc.prems show ?thesis by simp
  next
    case (Suc d')
    with Suc.prems have "(xtime ^^ d') (xtime x) \<noteq> 1"
      using Suc.IH [of "xtime x" d'] by simp
    with Suc show ?thesis by (simp add: funpow_swap1)
  qed
qed

lemma no_unit_254: "no_unit 254 2"
  by (simp add: no_unit_numeral xtime_def)

lemma xtime_1: "xtime 1 = 2"
  by (simp add: xtime_def)

lemma xpow_not_1: "0 < d \<Longrightarrow> d < 255 \<Longrightarrow> xpow d \<noteq> 1"
proof -
  assume d: "0 < d" "d < 255"
  then obtain e where e: "d = Suc e" by (cases d) auto
  with d have "(xtime ^^ e) 2 \<noteq> 1"
    using no_unit_funpow [OF no_unit_254, of e] by simp
  then show ?thesis
    by (simp add: e xpow_def funpow_swap1 xtime_1)
qed

lemma xrun_numeral: "xrun (numeral k) x = xrun (pred_numeral k) (xtime x)"
  by (simp add: numeral_eq_Suc)

lemma xrun_funpow: "xrun n x = (xtime ^^ n) x"
  by (induction n arbitrary: x) (simp_all add: funpow_swap1)

lemma xpow_xrun: "xpow n = xrun n 1"
  by (simp add: xpow_def xrun_funpow)

lemma xpow_255: "xpow 255 = 1"
  unfolding xpow_xrun by (simp add: xrun_numeral xtime_def)

lemma xpow_period: "xpow (n + 255) = xpow n"
proof -
  have "xpow (n + 255) = (xtime ^^ n) (xpow 255)" by (rule xpow_add)
  also have "\<dots> = (xtime ^^ n) 1" by (simp only: xpow_255)
  also have "\<dots> = xpow n" by (simp only: xpow_def)
  finally show ?thesis .
qed

lemma xpow_mult_255: "xpow (255 * k + n) = xpow n"
proof (induction k)
  case 0
  then show ?case by simp
next
  case (Suc k)
  have "255 * Suc k + n = (255 * k + n) + 255" by simp
  then show ?case using Suc xpow_period by metis
qed

lemma xpow_mod: "xpow (n mod 255) = xpow n"
proof -
  have "n = 255 * (n div 255) + n mod 255" by simp
  then show ?thesis using xpow_mult_255 by metis
qed

lemma xpow_inj_le:
  assumes "i \<le> j" "j < 255" "xpow i = xpow j"
  shows "i = j"
proof (rule ccontr)
  assume "i \<noteq> j"
  with assms obtain d where d: "j = i + d" "0 < d" "d < 255"
    by (metis add_diff_inverse_nat less_imp_diff_less not_less le_neq_implies_less zero_less_diff)
  have "(xtime ^^ i) (xpow 0) = (xtime ^^ i) (xpow d)"
    using assms(3) xpow_add [of i d] xpow_add [of i 0] d by simp
  then have "xpow d = 1"
    using funpow_xtime_inj [of i "xpow 0" "xpow d"] by (simp add: xpow_0)
  with d xpow_not_1 show False by blast
qed

lemma xpow_inj: "i < 255 \<Longrightarrow> j < 255 \<Longrightarrow> xpow i = xpow j \<Longrightarrow> i = j"
  using xpow_inj_le [of i j] xpow_inj_le [of j i] by (cases "i \<le> j") auto

lemma xpow_surj:
  assumes "a \<noteq> 0"
  shows "\<exists>i<255. xpow i = a"
proof -
  have inj: "inj_on xpow {..<255}"
    by (rule inj_onI) (auto dest: xpow_inj)
  have sub: "xpow ` {..<255} \<subseteq> UNIV - {0}"
    using xpow_nonzero by auto
  have "card (xpow ` {..<255}) = 255"
    using inj by (simp add: card_image)
  moreover have "card (UNIV - {0::uint8}) = 255"
    by (simp add: card_Diff_singleton card_word)
  ultimately have "xpow ` {..<255} = UNIV - {0}"
    using sub by (intro card_subset_eq) auto
  with assms have "a \<in> xpow ` {..<255}" by simp
  then show ?thesis by auto
qed

lemma ucast_8_16_8: "ucast (ucast (a::uint8) :: uint16) = a"
  by (rule ucast_up_ucast_id) (simp add: is_up)

lemma unat_ucast_8_16: "unat (ucast (a::uint8) :: uint16) = unat a"
proof -
  have "unat a < 2 ^ 16"
    using unsigned_less [of a, where 'a = nat] by simp
  then show ?thesis
    by (simp add: unsigned_ucast_eq take_bit_nat_eq_self)
qed

lemma unat_uint8_less: "unat (a::uint8) < 256"
  using unsigned_less [of a, where 'a = nat] by simp

lemma run1_0: "run1 0 = (1, tables0)"
  by (simp add: run1_def)

lemma run1_Suc: "run1 (Suc n) = exp_step n (run1 n)"
  by (simp add: run1_def)

lemma run1_inv:
  "n \<le> 255 \<Longrightarrow>
     fst (run1 n) = ucast (xpow n) \<and>
     length (m_expTable (snd (run1 n))) = 512 \<and>
     length (m_logTable (snd (run1 n))) = 256 \<and>
     (\<forall>i<n. m_expTable (snd (run1 n)) ! i = xpow i) \<and>
     (\<forall>i<n. m_logTable (snd (run1 n)) ! unat (xpow i) = of_nat i)"
proof (induction n)
  case 0
  then show ?case
    by (simp add: run1_0 tables0_def FIELD_SIZE_def xpow_0)
next
  case (Suc n)
  obtain x t where s: "run1 n = (x, t)" by (cases "run1 n")
  from Suc s have x: "x = ucast (xpow n)"
    and le: "length (m_expTable t) = 512"
    and ll: "length (m_logTable t) = 256"
    and e: "\<forall>i<n. m_expTable t ! i = xpow i"
    and l: "\<forall>i<n. m_logTable t ! unat (xpow i) = of_nat i"
    by auto
  have step: "run1 (Suc n) =
      (mul_alpha x, t\<lparr>m_expTable := (m_expTable t)[n := ucast x],
                       m_logTable := (m_logTable t)[unat x := of_nat n]\<rparr>)"
    by (simp add: run1_Suc s exp_step_def Let_def)
  have ux: "unat x = unat (xpow n)"
    by (simp add: x unat_ucast_8_16)
  have c1: "fst (run1 (Suc n)) = ucast (xpow (Suc n))"
    by (simp add: step x mul_alpha_ucast xpow_Suc)
  have c4: "\<forall>i<Suc n. m_expTable (snd (run1 (Suc n))) ! i = xpow i"
  proof (intro allI impI)
    fix i assume "i < Suc n"
    then show "m_expTable (snd (run1 (Suc n))) ! i = xpow i"
      using e le Suc.prems
      by (cases "i = n") (simp_all add: step x ucast_8_16_8)
  qed
  have c5: "\<forall>i<Suc n. m_logTable (snd (run1 (Suc n))) ! unat (xpow i) = of_nat i"
  proof (intro allI impI)
    fix i assume i: "i < Suc n"
    show "m_logTable (snd (run1 (Suc n))) ! unat (xpow i) = of_nat i"
    proof (cases "i = n")
      case True
      then show ?thesis
        using ll unat_uint8_less [of "xpow n"] by (simp add: step ux)
    next
      case False
      with i Suc.prems have "xpow i \<noteq> xpow n"
        using xpow_inj [of i n] by auto
      then have "unat (xpow i) \<noteq> unat (xpow n)"
        by (simp add: word_unat_eq_iff)
      with False i l show ?thesis
        by (simp add: step ux)
    qed
  qed
  show ?case
    using c1 c4 c5 le ll by (simp add: step)
qed

lemma run2_0: "run2 0 t = t"
  by (simp add: run2_def)

lemma run2_Suc: "run2 (Suc k) t = extend_step (255 + k) (run2 k t)"
proof -
  have "[255..<Suc (255 + k)] = [255..<255 + k] @ [255 + k]"
    by (rule upt_Suc_append) simp
  then show ?thesis
    unfolding run2_def add_Suc_right by (simp only: fold_append fold.simps o_apply id_apply)
qed

lemma run2_inv:
  "k \<le> 256 \<Longrightarrow> length (m_expTable t) = 512 \<Longrightarrow>
     m_logTable (run2 k t) = m_logTable t \<and>
     length (m_expTable (run2 k t)) = 512 \<and>
     (\<forall>i<255. m_expTable (run2 k t) ! i = m_expTable t ! i) \<and>
     (\<forall>i. 255 \<le> i \<and> i < 255 + k \<longrightarrow>
          m_expTable (run2 k t) ! i = m_expTable t ! ((i - 255) mod 255))"
proof (induction k)
  case 0
  then show ?case by (auto simp: run2_0)
next
  case (Suc k)
  let ?u = "run2 k t"
  from Suc have len: "length (m_expTable ?u) = 512"
    and low: "\<forall>i<255. m_expTable ?u ! i = m_expTable t ! i"
    and high: "\<forall>i. 255 \<le> i \<and> i < 255 + k \<longrightarrow>
          m_expTable ?u ! i = m_expTable t ! ((i - 255) mod 255)"
    and lg: "m_logTable ?u = m_logTable t"
    by auto
  have step: "run2 (Suc k) t = ?u\<lparr>m_expTable := (m_expTable ?u)[255 + k := m_expTable ?u ! k]\<rparr>"
    by (simp add: run2_Suc extend_step_def FIELD_SIZE_def)
  have src: "m_expTable ?u ! k = m_expTable t ! (k mod 255)"
  proof (cases "k < 255")
    case True
    with low show ?thesis by simp
  next
    case False
    with Suc.prems have "k = 255" by simp
    with high Suc.prems show ?thesis by simp
  qed
  have c4: "\<forall>i. 255 \<le> i \<and> i < 255 + Suc k \<longrightarrow>
          m_expTable (run2 (Suc k) t) ! i = m_expTable t ! ((i - 255) mod 255)"
  proof (intro allI impI)
    fix i assume i: "255 \<le> i \<and> i < 255 + Suc k"
    show "m_expTable (run2 (Suc k) t) ! i = m_expTable t ! ((i - 255) mod 255)"
    proof (cases "i = 255 + k")
      case True
      with len Suc.prems show ?thesis by (simp add: step src)
    next
      case False
      with i high show ?thesis by (simp add: step)
    qed
  qed
  have c3: "\<forall>i<255. m_expTable (run2 (Suc k) t) ! i = m_expTable t ! i"
    using low by (simp add: step)
  show ?case
    using c3 c4 len lg by (simp add: step)
qed

lemma InitTables_run: "InitTables = run2 256 ((snd (run1 255))\<lparr>m_logTable := (m_logTable (snd (run1 255)))[0 := 0]\<rparr>)"
  by (simp add: InitTables_def run1_def run2_def FIELD_SIZE_def Let_def)

lemma expTable_nth: "i < 511 \<Longrightarrow> m_expTable gf ! i = xpow i"
proof -
  assume i: "i < 511"
  let ?t1 = "snd (run1 255)"
  let ?t2 = "?t1\<lparr>m_logTable := (m_logTable ?t1)[0 := 0]\<rparr>"
  have inv1: "length (m_expTable ?t1) = 512" "\<forall>i<255. m_expTable ?t1 ! i = xpow i"
    using run1_inv [of 255] by auto
  then have len2: "length (m_expTable ?t2) = 512" by simp
  have inv2: "\<forall>i<255. m_expTable (run2 256 ?t2) ! i = m_expTable ?t2 ! i"
      "\<forall>i. 255 \<le> i \<and> i < 255 + 256 \<longrightarrow>
          m_expTable (run2 256 ?t2) ! i = m_expTable ?t2 ! ((i - 255) mod 255)"
    using run2_inv [of 256 ?t2, OF _ len2] by auto
  show ?thesis
  proof (cases "i < 255")
    case True
    with inv1 inv2 show ?thesis by (simp add: gf_def InitTables_run)
  next
    case False
    then have "m_expTable gf ! i = m_expTable ?t2 ! ((i - 255) mod 255)"
      using inv2 i by (simp add: gf_def InitTables_run)
    also have "\<dots> = xpow ((i - 255) mod 255)"
      using inv1 by simp
    also have "\<dots> = xpow (i - 255)" by (rule xpow_mod)
    also have "\<dots> = xpow ((i - 255) + 255)" by (simp only: xpow_period)
    also have "\<dots> = xpow i" using False by simp
    finally show ?thesis .
  qed
qed

lemma logTable_nth: "i < 255 \<Longrightarrow> m_logTable gf ! unat (xpow i) = of_nat i"
proof -
  assume i: "i < 255"
  let ?t1 = "snd (run1 255)"
  let ?t2 = "?t1\<lparr>m_logTable := (m_logTable ?t1)[0 := 0]\<rparr>"
  have inv1: "length (m_expTable ?t1) = 512"
      "\<forall>i<255. m_logTable ?t1 ! unat (xpow i) = of_nat i"
    using run1_inv [of 255] by auto
  then have len2: "length (m_expTable ?t2) = 512" by simp
  have "m_logTable (run2 256 ?t2) = m_logTable ?t2"
    using run2_inv [of 256 ?t2, OF _ len2] by auto
  moreover have "unat (xpow i) \<noteq> 0"
    using xpow_nonzero [of i] by (simp add: unat_eq_0)
  ultimately show ?thesis
    using inv1 i by (simp add: gf_def InitTables_run)
qed

section \<open>Field arithmetic\<close>

lemma xpow_cong: "i mod 255 = j mod 255 \<Longrightarrow> xpow i = xpow j"
  using xpow_mod [of i] xpow_mod [of j] by simp

lemma add_comp_255: "(i::nat) + (255 - i mod 255) = 255 * (i div 255 + 1)"
proof -
  define q r where "q = i div 255" and "r = i mod 255"
  have "i = 255 * q + r" "r < 255"
    by (simp_all add: q_def r_def)
  then have "i + (255 - r) = 255 * (q + 1)"
    by simp
  then show ?thesis
    by (simp only: q_def r_def)
qed

lemma xpow_comp: "xpow (m + (i + (255 - i mod 255))) = xpow m"
proof -
  have "m + (i + (255 - i mod 255)) = 255 * (i div 255 + 1) + m"
    by (simp only: add_comp_255 add.commute)
  then show ?thesis
    by (simp only: xpow_mult_255)
qed

lemma xpow_mod_right: "xpow (m + i mod 255) = xpow (m + i)"
  by (simp only: xpow_add xpow_mod)

lemma xpow_mod_left: "xpow (i mod 255 + m) = xpow (i + m)"
  using xpow_mod_right [of m i] by (simp add: add.commute)

lemma log_xpow: "unat (m_logTable gf ! unat (xpow i)) = i mod 255"
proof -
  have "m_logTable gf ! unat (xpow (i mod 255)) = of_nat (i mod 255)"
    by (rule logTable_nth) simp
  then have "m_logTable gf ! unat (xpow i) = of_nat (i mod 255)"
    by (simp only: xpow_mod)
  moreover have "i mod 255 < 256"
    using mod_less_divisor [of 255 i] by linarith
  ultimately show ?thesis
    by (simp add: unat_of_nat)
qed

lemma log_less: "(a::uint8) \<noteq> 0 \<Longrightarrow> unat (m_logTable gf ! unat a) < 255"
proof -
  assume "a \<noteq> 0"
  then obtain i where "xpow i = a" using xpow_surj by blast
  then show ?thesis using log_xpow [of i] by auto
qed

lemma exp_log: "a \<noteq> 0 \<Longrightarrow> m_expTable gf ! unat (m_logTable gf ! unat a) = a"
proof -
  assume "a \<noteq> 0"
  then obtain i where i: "xpow i = a" using xpow_surj by blast
  have "m_expTable gf ! (i mod 255) = xpow (i mod 255)"
    by (rule expTable_nth) (use mod_less_divisor [of 255 i] in linarith)
  then show ?thesis using log_xpow [of i] i by (simp add: xpow_mod)
qed

lemma Multiply_xpow: "Multiply (xpow i) (xpow j) = xpow (i + j)"
proof -
  let ?s = "i mod 255 + j mod 255"
  have lt: "?s mod 255 < 511" "?s < 511"
    using mod_less_divisor [of 255 i] mod_less_divisor [of 255 j] mod_less_divisor [of 255 ?s]
    by linarith+
  have "Multiply (xpow i) (xpow j) =
      m_expTable gf ! (if 255 \<le> ?s then ?s mod 255 else ?s)"
    by (simp add: Multiply_def xpow_nonzero log_xpow FIELD_SIZE_def Let_def)
  also have "\<dots> = xpow (if 255 \<le> ?s then ?s mod 255 else ?s)"
    using lt by (intro expTable_nth) simp
  also have "\<dots> = xpow ?s"
    by (simp add: xpow_mod)
  also have "\<dots> = xpow (i + j)"
    by (simp only: xpow_mod_left xpow_mod_right)
  finally show ?thesis .
qed

lemma Multiply_zero_left: "Multiply 0 b = 0"
  by (simp add: Multiply_def)

lemma Multiply_zero_right: "Multiply a 0 = 0"
  by (simp add: Multiply_def)

lemma Multiply_eq_0_iff: "Multiply a b = 0 \<longleftrightarrow> a = 0 \<or> b = 0"
proof (cases "a = 0 \<or> b = 0")
  case True
  then show ?thesis by (auto simp: Multiply_def)
next
  case False
  then obtain i j where "xpow i = a" "xpow j = b" using xpow_surj by blast
  with False show ?thesis using Multiply_xpow [of i j] xpow_nonzero [of "i + j"] by auto
qed

lemma Multiply_commute: "Multiply a b = Multiply b a"
proof (cases "a = 0 \<or> b = 0")
  case True
  then show ?thesis by (auto simp: Multiply_def)
next
  case False
  then obtain i j where "xpow i = a" "xpow j = b" using xpow_surj by blast
  then show ?thesis using Multiply_xpow [of i j] Multiply_xpow [of j i] by (simp add: add.commute)
qed

lemma Multiply_assoc: "Multiply (Multiply a b) c = Multiply a (Multiply b c)"
proof (cases "a = 0 \<or> b = 0 \<or> c = 0")
  case True
  then show ?thesis by (auto simp: Multiply_zero_left Multiply_zero_right)
next
  case False
  then obtain i j k where "xpow i = a" "xpow j = b" "xpow k = c" using xpow_surj by blast
  then show ?thesis
    using Multiply_xpow [of i j] Multiply_xpow [of "i + j" k]
      Multiply_xpow [of j k] Multiply_xpow [of i "j + k"]
    by (simp add: add.assoc)
qed

lemma Multiply_one_left: "Multiply 1 a = a"
proof (cases "a = 0")
  case True
  then show ?thesis by (simp add: Multiply_zero_right)
next
  case False
  then obtain i where "xpow i = a" using xpow_surj by blast
  then show ?thesis using Multiply_xpow [of 0 i] by (simp add: xpow_0)
qed

lemma Multiply_one_right: "Multiply a 1 = a"
  by (simp add: Multiply_commute [of a 1] Multiply_one_left)

lemma Multiply_funpow: "Multiply (xpow i) b = (xtime ^^ i) b"
proof (cases "b = 0")
  case True
  then show ?thesis by (simp add: Multiply_zero_right funpow_xtime_zero)
next
  case False
  then obtain j where "xpow j = b" using xpow_surj by blast
  then show ?thesis using Multiply_xpow [of i j] xpow_add [of i j] by simp
qed

lemma Multiply_distrib: "Multiply a (Add b c) = Add (Multiply a b) (Multiply a c)"
proof (cases "a = 0")
  case True
  then show ?thesis by (simp add: Multiply_zero_left Add_def)
next
  case False
  then obtain i where "xpow i = a" using xpow_surj by blast
  then show ?thesis
    using Multiply_funpow [of i] by (simp add: Add_def funpow_xtime_xor)
qed

lemma Multiply_distrib_right: "Multiply (Add a b) c = Add (Multiply a c) (Multiply b c)"
  by (simp add: Multiply_commute [of _ c] Multiply_distrib)

lemma Inverse_xpow: "Inverse (xpow i) = xpow (255 - i mod 255)"
proof -
  have "Inverse (xpow i) = m_expTable gf ! (255 - i mod 255)"
    by (simp add: Inverse_def xpow_nonzero log_xpow FIELD_SIZE_def Let_def)
  also have "\<dots> = xpow (255 - i mod 255)"
    by (rule expTable_nth) simp
  finally show ?thesis .
qed

lemma Multiply_Inverse: "a \<noteq> 0 \<Longrightarrow> Multiply a (Inverse a) = 1"
proof -
  assume "a \<noteq> 0"
  then obtain i where i: "xpow i = a" using xpow_surj by blast
  have "Multiply (xpow i) (Inverse (xpow i)) = xpow (i + (255 - i mod 255))"
    by (simp add: Inverse_xpow Multiply_xpow)
  also have "\<dots> = xpow (0 + (i + (255 - i mod 255)))"
    by simp
  also have "\<dots> = xpow 0"
    by (rule xpow_comp)
  finally show ?thesis by (simp add: i xpow_0)
qed

lemma Inverse_nonzero: "a \<noteq> 0 \<Longrightarrow> Inverse a \<noteq> 0"
  using Multiply_Inverse [of a] Multiply_zero_right [of a] by auto

lemma Divide_index:
  assumes "p < 255" "q < 255"
  shows "nat (if int p - int q < 0 then int p - int q + 255 else int p - int q) =
         (if p < q then p + (255 - q) else p - q)"
  using assms by auto

lemma Divide_xpow: "Divide (xpow i) (xpow j) = xpow (i + (255 - j mod 255))"
proof -
  define p q where "p = i mod 255" and "q = j mod 255"
  have pq: "p < 255" "q < 255"
    by (simp_all add: p_def q_def)
  define n where "n = (if p < q then p + (255 - q) else p - q)"
  have n511: "n < 511"
    using pq by (auto simp: n_def)
  have "Divide (xpow i) (xpow j) =
      m_expTable gf ! nat (if int p - int q < 0 then int p - int q + 255 else int p - int q)"
    by (simp add: Divide_def xpow_nonzero log_xpow FIELD_SIZE_def Let_def p_def q_def)
  also have "\<dots> = m_expTable gf ! n"
    by (simp only: Divide_index [OF pq] n_def)
  also have "\<dots> = xpow n"
    using n511 by (rule expTable_nth)
  also have "\<dots> = xpow (p + (255 - q))"
  proof (cases "p < q")
    case True
    then show ?thesis by (simp add: n_def)
  next
    case False
    then have "p + (255 - q) = n + 255" using pq by (simp add: n_def)
    then show ?thesis by (simp only: xpow_period)
  qed
  also have "\<dots> = xpow (i + (255 - j mod 255))"
    unfolding p_def q_def by (rule xpow_mod_left)
  finally show ?thesis .
qed

lemma Divide_Multiply: "b \<noteq> 0 \<Longrightarrow> Divide (Multiply a b) b = a"
proof (cases "a = 0")
  case True
  then show ?thesis by (simp add: Multiply_zero_left Divide_def)
next
  case False
  assume "b \<noteq> 0"
  with False obtain i j where ij: "xpow i = a" "xpow j = b" using xpow_surj by blast
  have "Divide (Multiply (xpow i) (xpow j)) (xpow j) = xpow ((i + j) + (255 - j mod 255))"
    by (simp add: Multiply_xpow Divide_xpow)
  also have "\<dots> = xpow (i + (j + (255 - j mod 255)))"
    by (simp add: add.assoc add.left_commute add.commute)
  also have "\<dots> = xpow i"
    by (rule xpow_comp)
  finally show ?thesis by (simp add: ij)
qed

lemma Multiply_Divide: "b \<noteq> 0 \<Longrightarrow> Multiply (Divide a b) b = a"
proof (cases "a = 0")
  case True
  then show ?thesis by (simp add: Multiply_zero_left Divide_def)
next
  case False
  assume "b \<noteq> 0"
  with False obtain i j where ij: "xpow i = a" "xpow j = b" using xpow_surj by blast
  have "Multiply (Divide (xpow i) (xpow j)) (xpow j) = xpow ((i + (255 - j mod 255)) + j)"
    by (simp add: Multiply_xpow Divide_xpow)
  also have "\<dots> = xpow (i + (j + (255 - j mod 255)))"
    by (simp add: add.assoc add.left_commute add.commute)
  also have "\<dots> = xpow i"
    by (rule xpow_comp)
  finally show ?thesis by (simp add: ij)
qed

section \<open>Claims about the field\<close>

text \<open>
  C2. The field laws hold for all bytes \<open>a\<close>, \<open>b\<close>, \<open>c\<close>: addition is commutative and
  associative, multiplication is commutative and distributes over addition, every
  nonzero \<open>a\<close> satisfies \<open>Multiply a (Inverse a) = 1\<close>, and dividing a product by its
  nonzero factor \<open>b\<close> gives back \<open>a\<close>.
\<close>

theorem field_axioms:
  "Add a b = Add b a \<and>
   Add a (Add b c) = Add (Add a b) c \<and>
   Multiply a b = Multiply b a \<and>
   Multiply a (Add b c) = Add (Multiply a b) (Multiply a c) \<and>
   (a \<noteq> 0 \<longrightarrow> Multiply a (Inverse a) = 1) \<and>
   (b \<noteq> 0 \<longrightarrow> Divide (Multiply a b) b = a)"
proof -
  have "Add a b = Add b a"
    by (simp add: Add_def xor.commute)
  moreover have "Add a (Add b c) = Add (Add a b) c"
    by (simp add: Add_def xor.assoc)
  moreover have "Multiply a b = Multiply b a"
    by (rule Multiply_commute)
  moreover have "Multiply a (Add b c) = Add (Multiply a b) (Multiply a c)"
    by (rule Multiply_distrib)
  ultimately show ?thesis
    using Multiply_Inverse [of a] Divide_Multiply [of b a] by blast
qed

theorem field_axioms_witness:
  "(2::uint8) \<noteq> 0 \<and> (3::uint8) \<noteq> 0 \<and>
   Multiply 2 (Inverse 2) = 1 \<and> Divide (Multiply 2 3) 3 = 2 \<and>
   Multiply 2 (Add 3 5) = Add (Multiply 2 3) (Multiply 2 5)"
proof -
  have "(2::uint8) \<noteq> 0" "(3::uint8) \<noteq> 0"
    by simp_all
  with field_axioms [of 2 3 5] show ?thesis
    by blast
qed

text \<open>
  C3, as the code has it. \<open>Divide a 0\<close> and \<open>Inverse 0\<close> return the byte 0, the same
  value as the legitimate quotient \<open>Divide 0 b\<close>; nothing in the returned value tells
  the two apart. For a nonzero divisor, \<open>Divide 0 b\<close> is 0 and \<open>Divide a b\<close> is the
  antilog table at \<open>(log a - log b + 255) mod 255\<close>; \<open>Inverse a\<close> is the antilog table
  at \<open>255 - log a\<close>.
\<close>

lemma mod_255_shift:
  fixes x :: int
  assumes "- 255 < x" "x < 255"
  shows "(x + 255) mod 255 = (if x < 0 then x + 255 else x)"
proof (cases "x < 0")
  case True
  then have "0 \<le> x + 255" "x + 255 < 255"
    using assms by auto
  then have "(x + 255) mod 255 = x + 255"
    by (rule mod_pos_pos_trivial)
  with True show ?thesis by simp
next
  case False
  then have "0 \<le> x" "x < 255"
    using assms by auto
  then have "x mod 255 = x"
    by (rule mod_pos_pos_trivial)
  with False show ?thesis by simp
qed

lemma Divide_index_mod:
  assumes "p < 255" "q < 255"
  shows "(if int p - int q < 0 then int p - int q + 255 else int p - int q) =
         (int p - int q + 255) mod 255"
  using assms by (intro mod_255_shift [symmetric]) auto

theorem Divide_by_zero_returns_zero: "Divide 1 0 = 0 \<and> Divide 1 0 = Divide 0 1 \<and> Inverse 0 = 0"
  by (simp add: Divide_def Inverse_def)

theorem Divide_Inverse_spec:
  "Divide a 0 = 0 \<and> Inverse 0 = 0 \<and>
   (b \<noteq> 0 \<longrightarrow> Divide 0 b = 0) \<and>
   (b \<noteq> 0 \<and> a \<noteq> 0 \<longrightarrow>
      Divide a b = m_expTable gf !
        nat ((int (unat (m_logTable gf ! unat a)) - int (unat (m_logTable gf ! unat b)) + 255) mod 255)) \<and>
   (a \<noteq> 0 \<longrightarrow> Inverse a = m_expTable gf ! (255 - unat (m_logTable gf ! unat a)))"
proof -
  have "Divide a b = m_expTable gf !
        nat ((int (unat (m_logTable gf ! unat a)) - int (unat (m_logTable gf ! unat b)) + 255) mod 255)"
    if "b \<noteq> 0" "a \<noteq> 0"
  proof -
    let ?p = "unat (m_logTable gf ! unat a)" and ?q = "unat (m_logTable gf ! unat b)"
    have pq: "?p < 255" "?q < 255"
      using that log_less by simp_all
    have eq: "(if int ?p - int ?q < 0 then int ?p - int ?q + 255 else int ?p - int ?q) =
          (int ?p - int ?q + 255) mod 255"
      using pq by (rule Divide_index_mod)
    have c: "int (256 - 1) = 255"
      by simp
    have "Divide a b = m_expTable gf !
        nat (if int ?p - int ?q < 0 then int ?p - int ?q + int (256 - 1) else int ?p - int ?q)"
      unfolding Divide_def Let_def FIELD_SIZE_def using that by (simp only: if_False)
    then show ?thesis
      by (simp only: c eq)
  qed
  then show ?thesis
    by (simp add: Divide_def Inverse_def FIELD_SIZE_def)
qed

theorem Divide_Inverse_spec_witness:
  "(1::uint8) \<noteq> 0 \<and> Divide 0 1 = 0 \<and>
   Divide 1 1 = m_expTable gf !
        nat ((int (unat (m_logTable gf ! unat (1::uint8))) - int (unat (m_logTable gf ! unat (1::uint8))) + 255) mod 255) \<and>
   Inverse 1 = m_expTable gf ! (255 - unat (m_logTable gf ! unat (1::uint8)))"
  using Divide_Inverse_spec [of 1 1] by simp

text \<open>
  C4, evaluated on the tables of the polynomial 0x11d: the sum of 0x53 and 0xCA is 0x99
  and 1 divided by 1 is 1, but the product of 0x53 and 0xCA is 0x8F, not 0x01.
\<close>

lemma xpow_206: "xpow 206 = 0x53"
  unfolding xpow_xrun by (simp add: xrun_numeral xtime_def)

lemma xpow_73: "xpow 73 = 0xCA"
  unfolding xpow_xrun by (simp add: xrun_numeral xtime_def)

lemma xpow_24: "xpow 24 = 0x8F"
  unfolding xpow_xrun by (simp add: xrun_numeral xtime_def)

theorem Multiply_53_CA:
  "Multiply 0x53 0xCA = 0x8F \<and> Multiply 0x53 0xCA \<noteq> 0x01 \<and>
   Add 0x53 0xCA = 0x99 \<and> Divide 0x01 0x01 = 0x01"
proof -
  have "Multiply (xpow 206) (xpow 73) = xpow (24 + 255)"
    by (simp add: Multiply_xpow)
  then have m: "Multiply 0x53 0xCA = 0x8F"
    by (simp only: xpow_period xpow_206 xpow_73 xpow_24)
  have "Divide (Multiply 1 1) 1 = (1::uint8)"
    by (rule Divide_Multiply) simp
  then have d: "Divide 1 1 = 1"
    by (simp add: Multiply_one_left)
  show ?thesis
    by (simp add: m d Add_def)
qed

section \<open>The header on the wire\<close>

lemma Read_Write_U16: "ReadNtohU16 (WriteHtonU16 v @ rest) = v"
  unfolding ReadNtohU16_def WriteHtonU16_def
  apply simp
  apply (rule bit_eqI)
  apply (auto simp: bit_simps)
  done

lemma Read_Write_U32: "ReadNtohU32 (WriteHtonU32 v @ rest) = v"
  unfolding ReadNtohU32_def WriteHtonU32_def
  apply simp
  apply (rule bit_eqI)
  apply (auto simp: bit_simps)
  subgoal for n by (cases "16 \<le> n") auto
  subgoal for n by (cases "16 \<le> n"; cases "24 \<le> n") auto
  done

lemma length_WriteHtonU32: "length (WriteHtonU32 v) = 4"
  by (simp add: WriteHtonU32_def)

lemma length_WriteHtonU16: "length (WriteHtonU16 v) = 2"
  by (simp add: WriteHtonU16_def)

lemma read_coefficients_append:
  "read_coefficients (length cs) (cs @ rest) acc = (True, acc @ cs)"
  by (induction cs arbitrary: acc) simp_all

lemma map_nth_pad:
  "length cs = n \<Longrightarrow> map (\<lambda>i. if i < length cs then cs ! i else 0) [0..<n] = cs"
  by (auto intro: nth_equalityI)

lemma Deserialize_Serialize:
  assumes "h_generationSize h \<noteq> 0" "h_generationSize h \<le> 255"
    and "length (h_coefficients h) = unat (h_generationSize h)"
  shows "Deserialize new_header (Serialize h @ payload) = (8 + unat (h_generationSize h), h)"
proof -
  let ?cs = "h_coefficients h"
  define bs where "bs = Serialize h @ payload"
  have m: "map (\<lambda>i. if i < length ?cs then ?cs ! i else 0) [0..<unat (h_generationSize h)] = ?cs"
    by (rule map_nth_pad [OF assms(3)])
  have c: "of_nat (length ?cs) = h_generationSize h"
    by (simp add: assms(3))
  have ser: "bs =
      WriteHtonU32 (h_generationId h) @ (WriteHtonU16 (h_generationSize h) @
        (WriteHtonU16 (h_generationSize h) @ (?cs @ payload)))"
    by (simp only: bs_def Serialize_def m c append_assoc)
  have d4: "drop 4 bs =
      WriteHtonU16 (h_generationSize h) @ (WriteHtonU16 (h_generationSize h) @ (?cs @ payload))"
    by (simp add: ser length_WriteHtonU32)
  have d6: "drop 6 bs = WriteHtonU16 (h_generationSize h) @ (?cs @ payload)"
    by (simp add: ser length_WriteHtonU32 length_WriteHtonU16)
  have d8: "drop 8 bs = ?cs @ payload"
    by (simp add: ser length_WriteHtonU32 length_WriteHtonU16)
  have r1: "ReadNtohU32 bs = h_generationId h"
    by (simp only: ser Read_Write_U32)
  have r2: "ReadNtohU16 (drop 4 bs) = h_generationSize h"
    by (simp only: d4 Read_Write_U16)
  have r3: "ReadNtohU16 (drop 6 bs) = h_generationSize h"
    by (simp only: d6 Read_Write_U16)
  have r4: "read_coefficients (unat (h_generationSize h)) (drop 8 bs) [] = (True, ?cs)"
    unfolding d8 using read_coefficients_append [of ?cs payload "[]"] by (simp add: assms(3))
  have gt: "\<not> 255 < h_generationSize h"
    using assms(2) by simp
  have "Deserialize new_header bs =
      (8 + unat (h_generationSize h),
       \<lparr>h_generationId = h_generationId h, h_generationSize = h_generationSize h,
        h_coefficients = ?cs\<rparr>)"
    unfolding Deserialize_def Let_def
    by (simp add: r1 r2 r3 r4 gt assms(1) new_header_def GetSerializedSize_def)
  then show ?thesis by (simp add: bs_def)
qed

lemma length_Serialize:
  "length (Serialize h) = 8 + unat (h_generationSize h)"
  by (simp add: Serialize_def length_WriteHtonU32 length_WriteHtonU16)

lemma RemoveHeader_AddHeader:
  assumes "h_generationSize h \<noteq> 0" "h_generationSize h \<le> 255"
    and "length (h_coefficients h) = unat (h_generationSize h)"
  shows "RemoveHeader new_header (AddHeader h payload) =
         (8 + unat (h_generationSize h), h, payload)"
  by (simp add: RemoveHeader_def AddHeader_def Deserialize_Serialize [OF assms] length_Serialize)

section \<open>The encoder\<close>

lemma take_min_length: "take (min (length xs) n) xs = take n xs"
  by (cases "length xs \<le> n") (simp_all add: min_def)

lemma diff_min_length: "n - min (length xs) n = n - length xs"
  by (simp add: min_def)

lemma replicate_2: "replicate 2 x = [x, x]"
  by (simp add: numeral_2_eq_2)

lemma map_of_map_insert:
  "map_of (map_insert k v m) k' = (if k' = k then Some v else map_of m k')"
  by (induction m) auto

lemma length_map_insert:
  "map_of m k = None \<Longrightarrow> length (map_insert k v m) = Suc (length m)"
  by (induction m) (auto split: if_splits)

text \<open>
  C8. \<open>AddPacket\<close> on a non-null packet returns false, changing nothing, when the buffer
  already holds \<open>generationSize\<close> packets or the sequence number is present. Otherwise it
  returns true, the buffer maps the sequence number to the payload cut or zero-padded
  to exactly \<open>packetSize\<close> bytes, every other sequence number maps to what it did before,
  and no other field changes.
\<close>

theorem AddPacket_spec:
  "(length (e_generationPackets e) \<ge> unat (e_generationSize e)
      \<longrightarrow> AddPacket e (Some data) seqNum = (False, e)) \<and>
   (map_of (e_generationPackets e) seqNum \<noteq> None
      \<longrightarrow> AddPacket e (Some data) seqNum = (False, e)) \<and>
   (length (e_generationPackets e) < unat (e_generationSize e) \<and>
    map_of (e_generationPackets e) seqNum = None
      \<longrightarrow> (let r = AddPacket e (Some data) seqNum; p = unat (e_packetSize e);
               stored = take p data @ replicate (p - length data) 0
           in fst r \<and>
              map_of (e_generationPackets (snd r)) seqNum = Some stored \<and>
              length stored = p \<and>
              (\<forall>k. k \<noteq> seqNum \<longrightarrow>
                   map_of (e_generationPackets (snd r)) k = map_of (e_generationPackets e) k) \<and>
              length (e_generationPackets (snd r)) = Suc (length (e_generationPackets e)) \<and>
              e_generationSize (snd r) = e_generationSize e \<and>
              e_packetSize (snd r) = e_packetSize e \<and>
              e_currentGeneration (snd r) = e_currentGeneration e))"
proof -
  let ?p = "unat (e_packetSize e)"
  let ?stored = "take ?p data @ replicate (?p - length data) 0"
  have eq: "AddPacket e (Some data) seqNum =
      (True, e\<lparr>e_generationPackets := map_insert seqNum ?stored (e_generationPackets e)\<rparr>)"
    if "length (e_generationPackets e) < unat (e_generationSize e)"
      and "map_of (e_generationPackets e) seqNum = None"
  proof (cases "length data = ?p")
    case True
    with that show ?thesis by (simp add: AddPacket_def)
  next
    case False
    with that show ?thesis
      by (simp add: AddPacket_def Let_def take_min_length diff_min_length)
  qed
  have "length ?stored = ?p"
    by simp
  then show ?thesis
    by (auto simp: eq Let_def map_of_map_insert length_map_insert simp del: length_append)
      (simp_all add: AddPacket_def)
qed

theorem AddPacket_spec_witness:
  "fst (AddPacket (new_encoder 1 4) (Some [1, 2]) 7) \<and>
   map_of (e_generationPackets (snd (AddPacket (new_encoder 1 4) (Some [1, 2]) 7))) 7 =
     Some [1, 2, 0, 0] \<and>
   length (e_generationPackets (snd (AddPacket (new_encoder 1 4) (Some [1, 2]) 7))) = 1 \<and>
   AddPacket ((new_encoder 1 4)\<lparr>e_generationPackets := [(7, [1, 2, 0, 0])]\<rparr>)
     (Some [9, 9, 9, 9]) 8 =
     (False, (new_encoder 1 4)\<lparr>e_generationPackets := [(7, [1, 2, 0, 0])]\<rparr>) \<and>
   AddPacket ((new_encoder 2 4)\<lparr>e_generationPackets := [(7, [1, 2, 0, 0])]\<rparr>)
     (Some [9, 9, 9, 9]) 7 =
     (False, (new_encoder 2 4)\<lparr>e_generationPackets := [(7, [1, 2, 0, 0])]\<rparr>)"
proof -
  let ?e = "(new_encoder 1 4)\<lparr>e_generationPackets := [(7, [1, 2, 0, 0])]\<rparr>"
  let ?f = "(new_encoder 2 4)\<lparr>e_generationPackets := [(7, [1, 2, 0, 0])]\<rparr>"
  have 1: "fst (AddPacket (new_encoder 1 4) (Some [1, 2]) 7) \<and>
      map_of (e_generationPackets (snd (AddPacket (new_encoder 1 4) (Some [1, 2]) 7))) 7 =
        Some [1, 2, 0, 0] \<and>
      length (e_generationPackets (snd (AddPacket (new_encoder 1 4) (Some [1, 2]) 7))) = 1"
    using AddPacket_spec [of "new_encoder 1 4" "[1, 2]" 7]
    by (simp add: new_encoder_def Let_def replicate_2)
  have 2: "AddPacket ?e (Some [9, 9, 9, 9]) 8 = (False, ?e)"
    using AddPacket_spec [of ?e "[9, 9, 9, 9]" 8] by (simp add: new_encoder_def)
  have 3: "AddPacket ?f (Some [9, 9, 9, 9]) 7 = (False, ?f)"
    using AddPacket_spec [of ?f "[9, 9, 9, 9]" 7] by (simp add: new_encoder_def)
  show ?thesis
    using 1 2 3 by simp
qed

text \<open>
  C9. \<open>GenerateCodedPacket\<close> returns the encoder it was called on, whatever the state and
  the draws, also over any number of calls in a row; and it returns null exactly when the
  buffer is empty.
\<close>

lemma GenerateCodedPacket_frame: "snd (GenerateCodedPacket e rnd) = e"
  by (simp add: GenerateCodedPacket_def Let_def)

lemma generate_many_frame_aux:
  "snd (fold (\<lambda>rnd (out, e'). case GenerateCodedPacket e' rnd of (pkt, e'') \<Rightarrow> (out @ [pkt], e''))
         rnds (acc, e)) = e"
proof (induction rnds arbitrary: acc)
  case Nil
  then show ?case by simp
next
  case (Cons rnd rnds)
  obtain pkt where "GenerateCodedPacket e rnd = (pkt, e)"
    using GenerateCodedPacket_frame [of e rnd] by (cases "GenerateCodedPacket e rnd") auto
  then show ?case
    using Cons.IH by simp
qed

theorem GenerateCodedPacket_pure:
  "snd (GenerateCodedPacket e rnd) = e \<and>
   snd (generate_many e rnds) = e \<and>
   (fst (GenerateCodedPacket e rnd) = None) = (e_generationPackets e = [])"
  by (simp add: GenerateCodedPacket_frame generate_many_def generate_many_frame_aux)
    (simp add: GenerateCodedPacket_def Let_def)

section \<open>The decoder: rank queries and the guards of decoding\<close>

lemma rank_column_snd: "snd (rank_column n j (m, r)) \<le> Suc r"
  by (simp add: rank_column_def Let_def)

lemma fold_rank_column_bound:
  "snd (fold (rank_column n) js s) \<le> snd s + length js"
proof (induction js arbitrary: s)
  case Nil
  then show ?case by simp
next
  case (Cons j js)
  obtain m r where s: "s = (m, r)" by (cases s)
  have "snd (fold (rank_column n) js (rank_column n j s)) \<le> snd (rank_column n j s) + length js"
    by (rule Cons.IH)
  also have "\<dots> \<le> Suc r + length js"
    using rank_column_snd [of n j m r] by (simp add: s)
  finally show ?case by (simp add: s)
qed

lemma CalculateRank_le: "CalculateRank d \<le> unat (m_generationSize d)"
  using fold_rank_column_bound [of "unat (m_generationSize d)" "[0..<unat (m_generationSize d)]"
      "(m_coefficients d, 0)"]
  by (simp add: CalculateRank_def Let_def)

text \<open>
  C10. \<open>GetRank\<close> and \<open>CanDecode\<close> return the decoder they were called on: elimination
  runs on the local copy of the coefficient matrix, so the stored matrices, the flag and
  the cache are as before. The rank returned is at most the generation size.
\<close>

theorem GetRank_pure:
  "snd (GetRank d) = d \<and> snd (CanDecode d) = d \<and>
   m_coefficients (snd (GetRank d)) = m_coefficients d \<and>
   m_codedPayloads (snd (GetRank d)) = m_codedPayloads d \<and>
   m_decoded (snd (GetRank d)) = m_decoded d \<and>
   m_decodedPackets (snd (GetRank d)) = m_decodedPackets d \<and>
   0 \<le> fst (GetRank d) \<and> fst (GetRank d) \<le> unat (m_generationSize d)"
  by (simp add: GetRank_def CanDecode_def CalculateRank_le)

lemma CanDecode_snd: "snd (CanDecode d) = d"
  by (simp add: CanDecode_def GetRank_def)

lemma CanDecode_fst: "fst (CanDecode d) = (CalculateRank d = unat (m_generationSize d))"
  by (simp add: CanDecode_def GetRank_def)

lemma decode_elimination_cases:
  "decode_elimination d = d \<or>
   (\<exists>pkts. decode_elimination d = d\<lparr>m_decodedPackets := pkts, m_decoded := True\<rparr>)"
  by (auto simp: decode_elimination_def Let_def split: option.splits)

lemma DecodeGeneration_cases:
  "DecodeGeneration d = d \<or>
   (\<exists>pkts. DecodeGeneration d = d\<lparr>m_decodedPackets := pkts, m_decoded := True\<rparr>)"
  using decode_elimination_cases [of d] by (auto simp: DecodeGeneration_def)

lemma DecodeGeneration_frame:
  "m_coefficients (DecodeGeneration d) = m_coefficients d"
  "m_codedPayloads (DecodeGeneration d) = m_codedPayloads d"
  "m_generationSize (DecodeGeneration d) = m_generationSize d"
  "m_packetSize (DecodeGeneration d) = m_packetSize d"
  "m_currentGeneration (DecodeGeneration d) = m_currentGeneration d"
  using DecodeGeneration_cases [of d] by auto

text \<open>
  C6. On a decoder whose decoded flag is set, \<open>ProcessCodedPacket\<close> returns false and
  the decoder it was given, for every packet, null or not: the cache of decoded packets
  and both matrices are as before.
\<close>

theorem ProcessCodedPacket_decoded:
  "m_decoded d \<Longrightarrow> ProcessCodedPacket d pkt = (False, d)"
  by (cases pkt) (simp_all add: ProcessCodedPacket_def)

theorem ProcessCodedPacket_decoded_witness:
  "m_decoded ((new_decoder 1 1)\<lparr>m_decodedPackets := [[7]], m_decoded := True\<rparr>) \<and>
   ProcessCodedPacket ((new_decoder 1 1)\<lparr>m_decodedPackets := [[7]], m_decoded := True\<rparr>)
     (Some [0, 0, 0, 0, 0, 1, 0, 1, 1, 9]) =
     (False, (new_decoder 1 1)\<lparr>m_decodedPackets := [[7]], m_decoded := True\<rparr>)"
  using ProcessCodedPacket_decoded
    [of "(new_decoder 1 1)\<lparr>m_decodedPackets := [[7]], m_decoded := True\<rparr>"
        "Some [0, 0, 0, 0, 0, 1, 0, 1, 1, 9]"]
  by simp

text \<open>
  C7. When the elimination of \<open>DecodeGeneration\<close> meets a column without a usable pivot
  (\<open>gauss_jordan\<close> returns \<open>None\<close>), the decoder is left exactly as it was: this holds for
  the elimination stage on its own, for \<open>DecodeGeneration\<close> as a whole and for
  \<open>GetDecodedPackets\<close>; in particular a clear decoded flag stays clear. The elimination is
  a total function: it returns on every input.
\<close>

theorem singular_abort:
  assumes "gauss_jordan (unat (m_generationSize d)) (unat (m_packetSize d))
             (m_coefficients d) (m_codedPayloads d) = None"
  shows "decode_elimination d = d \<and> DecodeGeneration d = d \<and>
         snd (GetDecodedPackets d) = d \<and>
         (\<not> m_decoded d \<longrightarrow> \<not> m_decoded (DecodeGeneration d))"
proof -
  have 1: "decode_elimination d = d"
    using assms by (simp add: decode_elimination_def Let_def)
  then have 2: "DecodeGeneration d = d"
    by (simp add: DecodeGeneration_def)
  then show ?thesis
    using 1 by (simp add: GetDecodedPackets_def Let_def)
qed

lemma gauss_jordan_zero_1: "gauss_jordan (Suc 0) (Suc 0) [[0]] [[0]] = None"
  by (simp add: gauss_jordan_def gj_step_def find_pivot_decode_def)

theorem singular_abort_witness:
  "gauss_jordan (unat (m_generationSize (new_decoder 1 1))) (unat (m_packetSize (new_decoder 1 1)))
     (m_coefficients (new_decoder 1 1)) (m_codedPayloads (new_decoder 1 1)) = None \<and>
   decode_elimination (new_decoder 1 1) = new_decoder 1 1 \<and>
   DecodeGeneration (new_decoder 1 1) = new_decoder 1 1"
proof -
  have h: "gauss_jordan (unat (m_generationSize (new_decoder 1 1)))
      (unat (m_packetSize (new_decoder 1 1)))
      (m_coefficients (new_decoder 1 1)) (m_codedPayloads (new_decoder 1 1)) = None"
    by (simp add: new_decoder_def gauss_jordan_zero_1)
  from singular_abort [OF h] h show ?thesis
    by blast
qed

section \<open>The decoder: storing a packet\<close>

lemma copy_data_eq: "copy_data p pkt = take p pkt @ replicate (p - length pkt) 0"
  by (simp add: copy_data_def take_min_length diff_min_length)

lemma length_copy_data: "length (copy_data p pkt) = p"
  by (simp add: copy_data_eq)

lemma pad_fold:
  "m \<le> length c \<Longrightarrow> m \<le> n \<Longrightarrow>
   fold (\<lambda>i padded. padded[i := c ! i]) [0..<m] (replicate n 0) = take m c @ replicate (n - m) 0"
proof (induction m)
  case 0
  then show ?case by simp
next
  case (Suc m)
  then have IH: "fold (\<lambda>i padded. padded[i := c ! i]) [0..<m] (replicate n 0) =
      take m c @ replicate (n - m) 0"
    by simp
  have "n - m = Suc (n - Suc m)"
    using Suc.prems by simp
  then have "(take m c @ replicate (n - m) 0)[m := c ! m] =
      take m c @ (c ! m # replicate (n - Suc m) 0)"
    using Suc.prems by (simp add: list_update_append)
  also have "\<dots> = take (Suc m) c @ replicate (n - Suc m) 0"
    using Suc.prems by (simp add: take_Suc_conv_app_nth)
  finally show ?case
    by (simp add: IH)
qed

lemma padded_coefficients:
  "fold (\<lambda>i padded. padded[i := c ! i]) [0..<min (length c) n] (replicate n 0) =
   take n c @ replicate (n - length c) 0"
proof -
  have "fold (\<lambda>i padded. padded[i := c ! i]) [0..<min (length c) n] (replicate n 0) =
      take (min (length c) n) c @ replicate (n - min (length c) n) 0"
    by (rule pad_fold) simp_all
  then show ?thesis
    by (simp add: take_min_length diff_min_length)
qed

lemma row_empty_iff: "row_empty n row \<longleftrightarrow> (\<forall>j<n. row ! j = 0)"
  by (auto simp: row_empty_def list_all_iff)

lemma find_empty_row_None:
  "find_empty_row n m = None \<longleftrightarrow> (\<forall>i<n. \<exists>j<n. m ! i ! j \<noteq> 0)"
  by (auto simp: find_empty_row_def find_None_iff row_empty_iff)

lemma find_empty_row_Some:
  "find_empty_row n m = Some i \<longleftrightarrow>
     i < n \<and> (\<forall>j<n. m ! i ! j = 0) \<and> (\<forall>k<i. \<exists>j<n. m ! k ! j \<noteq> 0)"
  by (auto simp: find_empty_row_def find_Some_iff row_empty_iff)

text \<open>What \<open>ProcessCodedPacket\<close> does once the header has been removed.\<close>

lemma ProcessCodedPacket_parsed:
  assumes "RemoveHeader new_header pkt = (hs, h, rest)" "hs \<noteq> 0" "h_coefficients h \<noteq> []"
    and "\<not> m_decoded d" "h_generationId h = m_currentGeneration d"
  shows "ProcessCodedPacket d (Some pkt) =
     (case find_empty_row (unat (m_generationSize d)) (m_coefficients d) of
        None \<Rightarrow> (False, d)
      | Some i \<Rightarrow>
          let d1 = d\<lparr>m_coefficients := (m_coefficients d)
                       [i := take (unat (m_generationSize d)) (h_coefficients h) @
                             replicate (unat (m_generationSize d) - length (h_coefficients h)) 0],
                     m_codedPayloads := (m_codedPayloads d)
                       [i := copy_data (unat (m_packetSize d)) rest]\<rparr>
          in (True, if fst (CanDecode d1) then DecodeGeneration d1 else d1))"
  using assms by (simp add: ProcessCodedPacket_def Let_def padded_coefficients)

section \<open>Reading a header back from the wire\<close>

lemma read_coefficients_take:
  "n \<le> length buf \<Longrightarrow> read_coefficients n buf acc = (True, acc @ take n buf)"
  by (induction n buf acc rule: read_coefficients.induct) simp_all

lemma read_coefficients_short:
  "length buf < n \<Longrightarrow> fst (read_coefficients n buf acc) = False"
  by (induction n buf acc rule: read_coefficients.induct) simp_all

lemma Write_Read_U16: "WriteHtonU16 (ReadNtohU16 bs) = [bs ! 0, bs ! 1]"
proof -
  have "ucast (drop_bit 8 (push_bit 8 (ucast a) OR ucast b :: uint16)) = a"
    and "ucast (push_bit 8 (ucast a) OR ucast b :: uint16) = b" for a b :: uint8
    by (rule bit_word_eqI; auto simp add: bit_simps dest: bit_imp_le_length)+
  then show ?thesis
    by (simp add: WriteHtonU16_def ReadNtohU16_def)
qed

lemma Write_Read_U32: "WriteHtonU32 (ReadNtohU32 bs) = [bs ! 0, bs ! 1, bs ! 2, bs ! 3]"
proof -
  let ?w = "\<lambda>a b c d :: uint8. push_bit 24 (ucast a) OR push_bit 16 (ucast b) OR
      push_bit 8 (ucast c) OR ucast d :: uint32"
  have "ucast (drop_bit 24 (?w a b c d)) = a" "ucast (drop_bit 16 (?w a b c d)) = b"
    "ucast (drop_bit 8 (?w a b c d)) = c" "ucast (?w a b c d) = d" for a b c d :: uint8
    by (rule bit_word_eqI; auto simp add: bit_simps dest: bit_imp_le_length)+
  then show ?thesis
    by (simp add: WriteHtonU32_def ReadNtohU32_def)
qed

lemma take_8: "8 \<le> length bs \<Longrightarrow>
    take 8 bs = [bs ! 0, bs ! 1, bs ! 2, bs ! 3, bs ! 4, bs ! 5, bs ! 6, bs ! 7]"
  by (rule nth_equalityI) (auto simp add: nth_Cons' less_Suc_eq eval_nat_numeral)

lemma Deserialize_fails_iff:
  "(fst (Deserialize h pkt) = 0) =
     (ReadNtohU16 (drop 6 pkt) \<noteq> ReadNtohU16 (drop 4 pkt) \<or>
      ReadNtohU16 (drop 4 pkt) = 0 \<or> 255 < ReadNtohU16 (drop 4 pkt) \<or>
      length pkt < 8 + unat (ReadNtohU16 (drop 4 pkt)))"
proof (cases "unat (ReadNtohU16 (drop 4 pkt)) \<le> length (drop 8 pkt)")
  case True
  then have "\<not> length pkt < 8 + unat (ReadNtohU16 (drop 4 pkt)) \<or>
      unat (ReadNtohU16 (drop 4 pkt)) = 0"
    by simp arith
  then have "\<not> length pkt < 8 + unat (ReadNtohU16 (drop 4 pkt)) \<or> ReadNtohU16 (drop 4 pkt) = 0"
    by (simp add: unat_eq_0)
  then show ?thesis
    by (auto simp add: Deserialize_def Let_def GetSerializedSize_def
        read_coefficients_take [OF True])
next
  case False
  then have s: "length (drop 8 pkt) < unat (ReadNtohU16 (drop 4 pkt))" by simp
  then have l: "length pkt < 8 + unat (ReadNtohU16 (drop 4 pkt))" by simp
  show ?thesis
    using read_coefficients_short [OF s, of "[]"] l
    by (auto simp add: Deserialize_def Let_def split: prod.splits)
qed

lemma Deserialize_success:
  assumes "ReadNtohU16 (drop 6 pkt) = ReadNtohU16 (drop 4 pkt)"
    and "ReadNtohU16 (drop 4 pkt) \<noteq> 0" "ReadNtohU16 (drop 4 pkt) \<le> 255"
    and "8 + unat (ReadNtohU16 (drop 4 pkt)) \<le> length pkt"
  shows "Deserialize new_header pkt =
     (8 + unat (ReadNtohU16 (drop 4 pkt)),
      \<lparr>h_generationId = ReadNtohU32 pkt, h_generationSize = ReadNtohU16 (drop 4 pkt),
       h_coefficients = take (unat (ReadNtohU16 (drop 4 pkt))) (drop 8 pkt)\<rparr>)"
proof -
  have le: "unat (ReadNtohU16 (drop 4 pkt)) \<le> length (drop 8 pkt)"
    using assms(4) by simp
  have gt: "\<not> 255 < ReadNtohU16 (drop 4 pkt)"
    using assms(3) by simp
  show ?thesis
    by (simp add: Deserialize_def Let_def GetSerializedSize_def new_header_def
        read_coefficients_take [OF le] assms(1,2) gt)
qed

lemma Serialize_parsed:
  assumes "ReadNtohU16 (drop 6 pkt) = ReadNtohU16 (drop 4 pkt)"
    and "8 + unat (ReadNtohU16 (drop 4 pkt)) \<le> length pkt"
  shows "Serialize
      \<lparr>h_generationId = ReadNtohU32 pkt, h_generationSize = ReadNtohU16 (drop 4 pkt),
       h_coefficients = take (unat (ReadNtohU16 (drop 4 pkt))) (drop 8 pkt)\<rparr> =
     take (8 + unat (ReadNtohU16 (drop 4 pkt))) pkt"
proof -
  define gs where "gs = ReadNtohU16 (drop 4 pkt)"
  define cs where "cs = take (unat gs) (drop 8 pkt)"
  have l8: "8 \<le> length pkt" using assms(2) by simp
  have lc: "length cs = unat gs"
    using assms(2) by (simp add: cs_def gs_def)
  have m: "map (\<lambda>i. if i < length cs then cs ! i else 0) [0..<unat gs] = cs"
    by (rule map_nth_pad [OF lc])
  have c: "(of_nat (length cs) :: uint16) = gs"
    by (simp add: lc)
  have w1: "WriteHtonU32 (ReadNtohU32 pkt) = [pkt ! 0, pkt ! 1, pkt ! 2, pkt ! 3]"
    by (rule Write_Read_U32)
  have w2: "WriteHtonU16 gs = [pkt ! 4, pkt ! 5]"
    unfolding gs_def Write_Read_U16 using l8 by simp
  have w3: "WriteHtonU16 gs = [pkt ! 6, pkt ! 7]"
    unfolding gs_def assms(1) [symmetric] Write_Read_U16 using l8 by simp
  have "Serialize \<lparr>h_generationId = ReadNtohU32 pkt, h_generationSize = gs,
        h_coefficients = cs\<rparr> =
      WriteHtonU32 (ReadNtohU32 pkt) @ WriteHtonU16 gs @ WriteHtonU16 gs @ cs"
    by (simp add: Serialize_def m c cong: if_cong)
  also have "\<dots> = [pkt ! 0, pkt ! 1, pkt ! 2, pkt ! 3] @ [pkt ! 4, pkt ! 5] @ [pkt ! 6, pkt ! 7] @ cs"
    using w1 w2 w3 by metis
  also have "\<dots> = take 8 pkt @ take (unat gs) (drop 8 pkt)"
    by (simp add: take_8 [OF l8] cs_def)
  also have "\<dots> = take (8 + unat gs) pkt"
    by (simp add: take_add)
  finally show ?thesis
    by (simp add: gs_def cs_def)
qed

text \<open>A packet whose header deserializes is a well-formed header in front of a payload.\<close>

lemma RemoveHeader_parsed:
  assumes "fst (RemoveHeader new_header pkt) \<noteq> 0"
  shows "case RemoveHeader new_header pkt of (sz, h, rest) \<Rightarrow>
     pkt = AddHeader h rest \<and> h_generationSize h \<noteq> 0 \<and> h_generationSize h \<le> 255 \<and>
     length (h_coefficients h) = unat (h_generationSize h)"
proof -
  let ?gs = "ReadNtohU16 (drop 4 pkt)"
  have "fst (Deserialize new_header pkt) \<noteq> 0"
    using assms by (simp add: RemoveHeader_def split: prod.splits)
  then have a: "ReadNtohU16 (drop 6 pkt) = ?gs" "?gs \<noteq> 0" "?gs \<le> 255"
      "8 + unat ?gs \<le> length pkt"
    by (auto simp add: Deserialize_fails_iff)
  have s: "Serialize \<lparr>h_generationId = ReadNtohU32 pkt, h_generationSize = ?gs,
       h_coefficients = take (unat ?gs) (drop 8 pkt)\<rparr> = take (8 + unat ?gs) pkt"
    by (rule Serialize_parsed [OF a(1,4)])
  have l: "length (take (unat ?gs) (drop 8 pkt)) = unat ?gs"
    using a(4) by simp
  show ?thesis
    using a(2,3) l
    by (simp add: RemoveHeader_def Deserialize_success [OF a] AddHeader_def s)
qed

lemma RemoveHeader_fails_iff:
  "(fst (RemoveHeader new_header pkt) = 0) =
     (ReadNtohU16 (drop 6 pkt) \<noteq> ReadNtohU16 (drop 4 pkt) \<or>
      ReadNtohU16 (drop 4 pkt) = 0 \<or> 255 < ReadNtohU16 (drop 4 pkt) \<or>
      length pkt < 8 + unat (ReadNtohU16 (drop 4 pkt)))"
  using Deserialize_fails_iff [of new_header pkt]
  by (cases "Deserialize new_header pkt") (simp add: RemoveHeader_def)

lemma ProcessCodedPacket_unparsed:
  "fst (RemoveHeader new_header pkt) = 0 \<Longrightarrow> ProcessCodedPacket d (Some pkt) = (False, d)"
  by (auto simp add: ProcessCodedPacket_def split: prod.splits)

text \<open>
  C5, as the code has it. The packet must also carry a header that deserializes: its
  generation-size field lies in 1..255 and equals its coefficient count. For such a
  packet \<open>ProcessCodedPacket\<close> returns false and leaves the decoder alone when the
  decoder is decoded, when the generation IDs differ, or when every one of the
  \<open>generationSize\<close> rows has a nonzero coefficient. In every other case, with \<open>i\<close> the
  first all-zero row, it returns true; row \<open>i\<close> of the coefficient matrix is the
  coefficient vector cut or zero-padded to \<open>generationSize\<close> and row \<open>i\<close> of the payload
  matrix is the payload cut or zero-padded to \<open>packetSize\<close>; no other row changes. The
  rank plays no part in the result.

  A packet \<open>pkt\<close> of at least eight bytes fails to deserialize exactly when its count
  field differs from its generation-size field, when the generation size is 0 or above
  255, or when fewer coefficient bytes follow than announced. Every such packet is
  rejected: \<open>ProcessCodedPacket\<close> returns false and leaves the decoder alone. Every
  packet of at least eight bytes that does deserialize is a header of the kind above in
  front of a payload, so the first part speaks of all of them.
\<close>

theorem ProcessCodedPacket_spec:
  "(h_generationSize h \<noteq> 0 \<and> h_generationSize h \<le> 255 \<and>
    length (h_coefficients h) = unat (h_generationSize h) \<longrightarrow>
      (m_decoded d \<longrightarrow> ProcessCodedPacket d (Some (AddHeader h payload)) = (False, d)) \<and>
      (h_generationId h \<noteq> m_currentGeneration d
         \<longrightarrow> ProcessCodedPacket d (Some (AddHeader h payload)) = (False, d)) \<and>
      ((\<forall>i<unat (m_generationSize d). \<exists>j<unat (m_generationSize d). m_coefficients d ! i ! j \<noteq> 0)
         \<longrightarrow> ProcessCodedPacket d (Some (AddHeader h payload)) = (False, d)) \<and>
      (\<not> m_decoded d \<and> h_generationId h = m_currentGeneration d \<and>
       i < unat (m_generationSize d) \<and>
       (\<forall>j<unat (m_generationSize d). m_coefficients d ! i ! j = 0) \<and>
       (\<forall>k<i. \<exists>j<unat (m_generationSize d). m_coefficients d ! k ! j \<noteq> 0)
         \<longrightarrow> fst (ProcessCodedPacket d (Some (AddHeader h payload))) \<and>
             m_coefficients (snd (ProcessCodedPacket d (Some (AddHeader h payload)))) =
               (m_coefficients d)
                 [i := take (unat (m_generationSize d)) (h_coefficients h) @
                       replicate (unat (m_generationSize d) - length (h_coefficients h)) 0] \<and>
             m_codedPayloads (snd (ProcessCodedPacket d (Some (AddHeader h payload)))) =
               (m_codedPayloads d)
                 [i := take (unat (m_packetSize d)) payload @
                       replicate (unat (m_packetSize d) - length payload) 0])) \<and>
   (8 \<le> length pkt \<longrightarrow>
      (fst (RemoveHeader new_header pkt) = 0) =
        (ReadNtohU16 (drop 6 pkt) \<noteq> ReadNtohU16 (drop 4 pkt) \<or>
         ReadNtohU16 (drop 4 pkt) = 0 \<or> 255 < ReadNtohU16 (drop 4 pkt) \<or>
         length pkt < 8 + unat (ReadNtohU16 (drop 4 pkt)))) \<and>
   (8 \<le> length pkt \<and> fst (RemoveHeader new_header pkt) = 0 \<longrightarrow>
      ProcessCodedPacket d (Some pkt) = (False, d)) \<and>
   (8 \<le> length pkt \<and> fst (RemoveHeader new_header pkt) \<noteq> 0 \<longrightarrow>
      (case RemoveHeader new_header pkt of (sz, h', rest) \<Rightarrow>
         pkt = AddHeader h' rest \<and> h_generationSize h' \<noteq> 0 \<and> h_generationSize h' \<le> 255 \<and>
         length (h_coefficients h') = unat (h_generationSize h')))"
  (is "(?P \<longrightarrow> ?Q) \<and> ?B \<and> ?C \<and> ?D")
proof -
  have A: "?P \<longrightarrow> ?Q"
  proof
    assume "?P"
    then have assms: "h_generationSize h \<noteq> 0" "h_generationSize h \<le> 255"
        "length (h_coefficients h) = unat (h_generationSize h)"
      by simp_all
    let ?n = "unat (m_generationSize d)"
    let ?r = "ProcessCodedPacket d (Some (AddHeader h payload))"
    have rh: "RemoveHeader new_header (AddHeader h payload) = (8 + unat (h_generationSize h), h, payload)"
      by (rule RemoveHeader_AddHeader [OF assms])
    have ne: "h_coefficients h \<noteq> []"
    proof
      assume "h_coefficients h = []"
      with assms(3) have "unat (h_generationSize h) = 0" by simp
      with assms(1) show False by (simp add: unat_eq_0)
    qed
    have 1: "m_decoded d \<longrightarrow> ?r = (False, d)"
      by (simp add: ProcessCodedPacket_def)
    have 2: "h_generationId h \<noteq> m_currentGeneration d \<longrightarrow> ?r = (False, d)"
      by (simp add: ProcessCodedPacket_def rh)
    have 3: "?r = (False, d)"
      if "\<forall>i<?n. \<exists>j<?n. m_coefficients d ! i ! j \<noteq> 0"
    proof -
      from that have "find_empty_row ?n (m_coefficients d) = None"
        by (simp add: find_empty_row_None)
      then show ?thesis
        by (simp add: ProcessCodedPacket_def rh Let_def)
    qed
    have 4: "fst ?r \<and>
        m_coefficients (snd ?r) = (m_coefficients d)
          [i := take ?n (h_coefficients h) @ replicate (?n - length (h_coefficients h)) 0] \<and>
        m_codedPayloads (snd ?r) = (m_codedPayloads d)
          [i := take (unat (m_packetSize d)) payload @
                replicate (unat (m_packetSize d) - length payload) 0]"
      if a: "\<not> m_decoded d" "h_generationId h = m_currentGeneration d"
        and b: "i < ?n" "\<forall>j<?n. m_coefficients d ! i ! j = 0"
          "\<forall>k<i. \<exists>j<?n. m_coefficients d ! k ! j \<noteq> 0"
    proof -
      from b have f: "find_empty_row ?n (m_coefficients d) = Some i"
        by (simp add: find_empty_row_Some)
      have hs: "8 + unat (h_generationSize h) \<noteq> 0"
        by simp
      show ?thesis
        by (simp add: ProcessCodedPacket_parsed [OF rh hs ne a] f Let_def
            DecodeGeneration_frame copy_data_eq)
    qed
    show ?Q
      using 1 2 3 4 by blast
  qed
  have B: "?B"
    by (simp add: RemoveHeader_fails_iff)
  have C: "?C"
    by (simp add: ProcessCodedPacket_unparsed)
  have D: "?D"
    using RemoveHeader_parsed [of pkt] by simp
  show ?thesis
    using A B C D by (intro conjI)
qed

text \<open>
  C5 as stated fails: a packet with the non-empty coefficient vector \<open>[1]\<close> under a header
  announcing generation size 2 reaches a fresh decoder of the matching generation, with
  every row still empty, and is rejected, because \<open>Deserialize\<close> refuses a coefficient
  count that differs from the generation-size field.
\<close>

theorem ProcessCodedPacket_rejects_bad_header:
  "h_coefficients \<lparr>h_generationId = 0, h_generationSize = 2, h_coefficients = [1]\<rparr> \<noteq> [] \<and>
   \<not> m_decoded (new_decoder 2 1) \<and>
   h_generationId \<lparr>h_generationId = 0, h_generationSize = 2, h_coefficients = [1]\<rparr> =
     m_currentGeneration (new_decoder 2 1) \<and>
   find_empty_row 2 (m_coefficients (new_decoder 2 1)) = Some 0 \<and>
   AddHeader \<lparr>h_generationId = 0, h_generationSize = 2, h_coefficients = [1]\<rparr> [5] =
     [0, 0, 0, 0, 0, 2, 0, 1, 1, 0, 5] \<and>
   ProcessCodedPacket (new_decoder 2 1)
     (Some (AddHeader \<lparr>h_generationId = 0, h_generationSize = 2, h_coefficients = [1]\<rparr> [5])) =
     (False, new_decoder 2 1)"
proof -
  have u: "[0..<2] = [0, 1]"
    by (simp add: numeral_2_eq_2)
  have a: "AddHeader \<lparr>h_generationId = 0, h_generationSize = 2, h_coefficients = [1]\<rparr> [5] =
      [0, 0, 0, 0, 0, 2, 0, 1, 1, 0, 5]"
    by (simp add: AddHeader_def Serialize_def WriteHtonU32_def WriteHtonU16_def u)
  have f: "find_empty_row 2 (m_coefficients (new_decoder 2 1)) = Some 0"
    by (simp add: find_empty_row_def row_empty_def new_decoder_def u replicate_2)
  have p: "ProcessCodedPacket (new_decoder 2 1) (Some [0, 0, 0, 0, 0, 2, 0, 1, 1, 0, 5]) =
      (False, new_decoder 2 1)"
    by (simp add: ProcessCodedPacket_def RemoveHeader_def Deserialize_def ReadNtohU16_def
        new_decoder_def Let_def)
  show ?thesis
    using a f p by (simp add: new_decoder_def)
qed

theorem ProcessCodedPacket_spec_witness:
  "h_generationSize \<lparr>h_generationId = 0, h_generationSize = 2, h_coefficients = [1, 0]\<rparr> \<noteq> 0 \<and>
   h_generationSize \<lparr>h_generationId = 0, h_generationSize = 2, h_coefficients = [1, 0]\<rparr> \<le> 255 \<and>
   fst (ProcessCodedPacket
          ((new_decoder 2 1)\<lparr>m_coefficients := [[1, 0], [0, 0]], m_codedPayloads := [[7], [0]]\<rparr>)
          (Some (AddHeader
             \<lparr>h_generationId = 0, h_generationSize = 2, h_coefficients = [1, 0]\<rparr> [7]))) \<and>
   m_coefficients (snd (ProcessCodedPacket
          ((new_decoder 2 1)\<lparr>m_coefficients := [[1, 0], [0, 0]], m_codedPayloads := [[7], [0]]\<rparr>)
          (Some (AddHeader
             \<lparr>h_generationId = 0, h_generationSize = 2, h_coefficients = [1, 0]\<rparr> [7])))) =
     [[1, 0], [1, 0]] \<and>
   m_codedPayloads (snd (ProcessCodedPacket
          ((new_decoder 2 1)\<lparr>m_coefficients := [[1, 0], [0, 0]], m_codedPayloads := [[7], [0]]\<rparr>)
          (Some (AddHeader
             \<lparr>h_generationId = 0, h_generationSize = 2, h_coefficients = [1, 0]\<rparr> [7])))) =
     [[7], [7]] \<and>
   8 \<le> length [0, 0, 0, 0, 0, 3, 0, 3, 1, 1 :: uint8] \<and>
   fst (RemoveHeader new_header [0, 0, 0, 0, 0, 3, 0, 3, 1, 1]) = 0 \<and>
   ProcessCodedPacket (new_decoder 3 1) (Some [0, 0, 0, 0, 0, 3, 0, 3, 1, 1]) =
     (False, new_decoder 3 1) \<and>
   8 \<le> length [0, 0, 0, 0, 0, 1, 0, 1, 9, 7 :: uint8] \<and>
   fst (RemoveHeader new_header [0, 0, 0, 0, 0, 1, 0, 1, 9, 7]) \<noteq> 0 \<and>
   [0, 0, 0, 0, 0, 1, 0, 1, 9, 7] =
     AddHeader \<lparr>h_generationId = 0, h_generationSize = 1, h_coefficients = [9]\<rparr> [7]"
proof -
  let ?h = "\<lparr>h_generationId = 0, h_generationSize = 2, h_coefficients = [1, 0]\<rparr>"
  let ?d = "(new_decoder 2 1)\<lparr>m_coefficients := [[1, 0], [0, 0]], m_codedPayloads := [[7], [0]]\<rparr>"
  let ?bad = "[0, 0, 0, 0, 0, 3, 0, 3, 1, 1 :: uint8]"
  let ?good = "[0, 0, 0, 0, 0, 1, 0, 1, 9, 7 :: uint8]"
  have h: "h_generationSize ?h \<noteq> 0 \<and> h_generationSize ?h \<le> 255 \<and>
      length (h_coefficients ?h) = unat (h_generationSize ?h)"
    by simp
  have n: "unat (m_generationSize ?d) = 2"
    by (simp add: new_decoder_def)
  have e: "\<exists>j<2. m_coefficients ?d ! 0 ! j \<noteq> 0"
    by (rule exI [of _ 0]) simp
  have d: "\<not> m_decoded ?d \<and> h_generationId ?h = m_currentGeneration ?d \<and>
      1 < unat (m_generationSize ?d) \<and>
      (\<forall>j<unat (m_generationSize ?d). m_coefficients ?d ! 1 ! j = 0) \<and>
      (\<forall>k<1. \<exists>j<unat (m_generationSize ?d). m_coefficients ?d ! k ! j \<noteq> 0)"
    unfolding n using e by (auto simp: new_decoder_def less_2_cases_iff)
  have rg: "RemoveHeader new_header ?good =
      (9, \<lparr>h_generationId = 0, h_generationSize = 1, h_coefficients = [9]\<rparr>, [7])"
    by (simp add: RemoveHeader_def Deserialize_def Let_def ReadNtohU16_def ReadNtohU32_def
        new_header_def GetSerializedSize_def)
  have 1: "fst (ProcessCodedPacket ?d (Some (AddHeader ?h [7]))) \<and>
      m_coefficients (snd (ProcessCodedPacket ?d (Some (AddHeader ?h [7])))) = [[1, 0], [1, 0]] \<and>
      m_codedPayloads (snd (ProcessCodedPacket ?d (Some (AddHeader ?h [7])))) = [[7], [7]]"
    using ProcessCodedPacket_spec
      [where h = ?h and d = ?d and i = 1 and payload = "[7]", THEN conjunct1] d h
    by (simp add: new_decoder_def)
  have 2: "fst (RemoveHeader new_header ?bad) = 0 \<and>
      ProcessCodedPacket (new_decoder 3 1) (Some ?bad) = (False, new_decoder 3 1)"
    using ProcessCodedPacket_spec [where pkt = ?bad and d = "new_decoder 3 1", THEN conjunct2]
    by (simp add: ReadNtohU16_def)
  have 3: "?good = AddHeader \<lparr>h_generationId = 0, h_generationSize = 1, h_coefficients = [9]\<rparr> [7]"
    using ProcessCodedPacket_spec [where pkt = ?good, THEN conjunct2] by (simp add: rg)
  have 4: "8 \<le> length ?bad" "8 \<le> length ?good" "fst (RemoveHeader new_header ?good) \<noteq> 0"
    by (simp_all add: rg)
  show ?thesis
    using h 1 2 3 4 by blast
qed

section \<open>Sums in the field\<close>

lemma Add_zero_left: "Add 0 a = a"
  by (simp add: Add_def)

lemma Add_zero_right: "Add a 0 = a"
  by (simp add: Add_def)

lemma Add_self: "Add a a = 0"
  by (simp add: Add_def)

lemma Add_commute: "Add a b = Add b a"
  by (simp add: Add_def xor.commute)

lemma Add_assoc: "Add (Add a b) c = Add a (Add b c)"
  by (simp add: Add_def xor.assoc)

lemma Add_left_commute: "Add a (Add b c) = Add b (Add a c)"
  by (simp add: Add_def xor.left_commute)

lemma Add_eq_0_iff: "Add a b = 0 \<longleftrightarrow> a = b"
proof
  assume z: "Add a b = 0"
  have "a = Add (Add a b) b"
    by (simp add: Add_def xor.assoc)
  then show "a = b"
    by (simp add: z Add_zero_left)
qed (simp add: Add_self)

lemma Subtract_eq_Add: "Subtract a b = Add a b"
  by (simp add: Subtract_def)

lemma gsum_cong: "(\<And>k. k < n \<Longrightarrow> f k = g k) \<Longrightarrow> gsum n f = gsum n g"
  by (induction n) simp_all

lemma gsum_zero: "(\<And>k. k < n \<Longrightarrow> f k = 0) \<Longrightarrow> gsum n f = 0"
  by (induction n) (simp_all add: Add_zero_left)

lemma gsum_Add: "gsum n (\<lambda>k. Add (f k) (g k)) = Add (gsum n f) (gsum n g)"
  by (induction n) (simp_all add: Add_zero_left Add_assoc Add_left_commute)

lemma gsum_Multiply_left: "gsum n (\<lambda>k. Multiply c (f k)) = Multiply c (gsum n f)"
  by (induction n) (simp_all add: Multiply_zero_right Multiply_distrib)

lemma gsum_Multiply_right: "gsum n (\<lambda>k. Multiply (f k) c) = Multiply (gsum n f) c"
  by (induction n) (simp_all add: Multiply_zero_left Multiply_distrib_right)

lemma gsum_swap: "gsum n (\<lambda>i. gsum m (\<lambda>j. f i j)) = gsum m (\<lambda>j. gsum n (\<lambda>i. f i j))"
proof (induction n)
  case 0
  show ?case by (simp add: gsum_zero)
next
  case (Suc n)
  then show ?case by (simp add: gsum_Add)
qed

lemma gsum_single:
  assumes "a < n" "\<And>k. k < n \<Longrightarrow> k \<noteq> a \<Longrightarrow> f k = 0"
  shows "gsum n f = f a"
  using assms
proof (induction n)
  case 0
  then show ?case by simp
next
  case (Suc n)
  show ?case
  proof (cases "a = n")
    case True
    have "gsum n f = 0"
      using Suc.prems(2) True by (intro gsum_zero) simp
    then show ?thesis
      by (simp add: True Add_zero_left)
  next
    case False
    with Suc.prems have "a < n" by simp
    then have "gsum n f = f a"
      using Suc.prems(2) by (intro Suc.IH) simp_all
    moreover have "f n = 0"
      using Suc.prems(2) [of n] False by simp
    ultimately show ?thesis
      by (simp add: Add_zero_right)
  qed
qed

lemma gsum_pair:
  assumes "a < n" "b < n" "a \<noteq> b" "\<And>k. k < n \<Longrightarrow> k \<noteq> a \<Longrightarrow> k \<noteq> b \<Longrightarrow> f k = 0"
  shows "gsum n f = Add (f a) (f b)"
proof -
  let ?g = "\<lambda>k. if k = a then f a else 0"
  let ?h = "\<lambda>k. if k = b then f b else 0"
  have "gsum n f = gsum n (\<lambda>k. Add (?g k) (?h k))"
    using assms by (intro gsum_cong) (auto simp: Add_zero_left Add_zero_right)
  also have "\<dots> = Add (gsum n ?g) (gsum n ?h)"
    by (rule gsum_Add)
  also have "gsum n ?g = ?g a"
    using assms(1) by (intro gsum_single) simp_all
  also have "gsum n ?h = ?h b"
    using assms(2) by (intro gsum_single) simp_all
  finally show ?thesis by simp
qed

section \<open>The row loops\<close>

lemma set_entry_length: "length (set_entry m j k v) = length m"
  by (simp add: set_entry_def)

lemma set_entry_other: "r \<noteq> j \<Longrightarrow> set_entry m j k v ! r = m ! r"
  by (simp add: set_entry_def)

lemma set_entry_row: "j < length m \<Longrightarrow> set_entry m j k v ! j = (m ! j)[k := v]"
  by (simp add: set_entry_def)

lemma elim_row_Suc:
  "lo \<le> hi \<Longrightarrow> elim_row lo (Suc hi) i j f M =
     (let E = elim_row lo hi i j f M
      in set_entry E j hi (Subtract (E ! j ! hi) (Multiply f (E ! i ! hi))))"
  by (simp add: elim_row_def Let_def)

lemma elim_row_empty: "hi \<le> lo \<Longrightarrow> elim_row lo hi i j f M = M"
  by (simp add: elim_row_def)

lemma elim_row_props:
  assumes "j < length M" "i \<noteq> j"
  shows "length (elim_row lo hi i j f M) = length M \<and>
         (\<forall>r. r \<noteq> j \<longrightarrow> elim_row lo hi i j f M ! r = M ! r) \<and>
         length (elim_row lo hi i j f M ! j) = length (M ! j) \<and>
         (\<forall>k<length (M ! j). elim_row lo hi i j f M ! j ! k =
            (if lo \<le> k \<and> k < hi then Subtract (M ! j ! k) (Multiply f (M ! i ! k))
             else M ! j ! k))"
proof (induction hi)
  case 0
  show ?case by (simp add: elim_row_empty)
next
  case (Suc hi)
  show ?case
  proof (cases "lo \<le> hi")
    case False
    then show ?thesis by (auto simp: elim_row_empty)
  next
    case True
    let ?E = "elim_row lo hi i j f M"
    let ?v = "Subtract (?E ! j ! hi) (Multiply f (?E ! i ! hi))"
    from Suc have len: "length ?E = length M"
      and other: "\<And>r. r \<noteq> j \<Longrightarrow> ?E ! r = M ! r"
      and lenj: "length (?E ! j) = length (M ! j)"
      and ent: "\<And>k. k < length (M ! j) \<Longrightarrow> ?E ! j ! k =
            (if lo \<le> k \<and> k < hi then Subtract (M ! j ! k) (Multiply f (M ! i ! k))
             else M ! j ! k)"
      by auto
    have step: "elim_row lo (Suc hi) i j f M = set_entry ?E j hi ?v"
      using True by (simp add: elim_row_Suc Let_def)
    have jE: "j < length ?E"
      using assms(1) len by simp
    have v: "hi < length (M ! j) \<Longrightarrow> ?v = Subtract (M ! j ! hi) (Multiply f (M ! i ! hi))"
      using ent [of hi] other [of i] assms(2) by simp
    have c4: "elim_row lo (Suc hi) i j f M ! j ! k =
            (if lo \<le> k \<and> k < Suc hi then Subtract (M ! j ! k) (Multiply f (M ! i ! k))
             else M ! j ! k)" if "k < length (M ! j)" for k
    proof (cases "k = hi")
      case True
      with that v \<open>lo \<le> hi\<close> show ?thesis
        by (simp add: step set_entry_row [OF jE] lenj)
    next
      case False
      with that ent [of k] show ?thesis
        by (simp add: step set_entry_row [OF jE] less_Suc_eq)
    qed
    show ?thesis
      using c4 by (simp add: step set_entry_length set_entry_other set_entry_row [OF jE] len other lenj)
  qed
qed

lemma scale_row_Suc:
  "scale_row (Suc len) i c M =
     (let E = scale_row len i c M in set_entry E i len (Multiply (E ! i ! len) c))"
  by (simp add: scale_row_def Let_def)

lemma scale_row_props:
  assumes "i < length M"
  shows "length (scale_row len i c M) = length M \<and>
         (\<forall>r. r \<noteq> i \<longrightarrow> scale_row len i c M ! r = M ! r) \<and>
         length (scale_row len i c M ! i) = length (M ! i) \<and>
         (\<forall>k<length (M ! i). scale_row len i c M ! i ! k =
            (if k < len then Multiply (M ! i ! k) c else M ! i ! k))"
proof (induction len)
  case 0
  show ?case by (simp add: scale_row_def)
next
  case (Suc len)
  let ?E = "scale_row len i c M"
  let ?v = "Multiply (?E ! i ! len) c"
  from Suc have len: "length ?E = length M"
    and other: "\<And>r. r \<noteq> i \<Longrightarrow> ?E ! r = M ! r"
    and leni: "length (?E ! i) = length (M ! i)"
    and ent: "\<And>k. k < length (M ! i) \<Longrightarrow> ?E ! i ! k =
          (if k < len then Multiply (M ! i ! k) c else M ! i ! k)"
    by auto
  have step: "scale_row (Suc len) i c M = set_entry ?E i len ?v"
    by (simp add: scale_row_Suc Let_def)
  have iE: "i < length ?E"
    using assms len by simp
  have c4: "scale_row (Suc len) i c M ! i ! k =
          (if k < Suc len then Multiply (M ! i ! k) c else M ! i ! k)"
    if "k < length (M ! i)" for k
  proof (cases "k = len")
    case True
    with that ent [of len] show ?thesis
      by (simp add: step set_entry_row [OF iE] leni)
  next
    case False
    with that ent [of k] show ?thesis
      by (simp add: step set_entry_row [OF iE] less_Suc_eq)
  qed
  show ?case
    using c4 by (simp add: step set_entry_length set_entry_other set_entry_row [OF iE] len other leni)
qed

lemma swap_rows_props:
  assumes "a < length M" "b < length M"
  shows "length (swap_rows a b M) = length M"
    and "swap_rows a b M ! a = M ! b"
    and "swap_rows a b M ! b = M ! a"
    and "\<And>r. r \<noteq> a \<Longrightarrow> r \<noteq> b \<Longrightarrow> swap_rows a b M ! r = M ! r"
  using assms by (auto simp: swap_rows_def nth_list_update)

section \<open>Row operations and linear systems\<close>

lemma dot_cong: "(\<And>k. k < n \<Longrightarrow> r ! k = r' ! k) \<Longrightarrow> dot n r x = dot n r' x"
  unfolding dot_def by (rule gsum_cong) simp

lemma dot_scaled:
  assumes "\<And>k. k < n \<Longrightarrow> r' ! k = Multiply (r ! k) c"
  shows "dot n r' x = Multiply c (dot n r x)"
proof -
  have "dot n r' x = gsum n (\<lambda>k. Multiply c (Multiply (r ! k) (x ! k)))"
    unfolding dot_def using assms
    by (intro gsum_cong) (simp add: Multiply_commute [of _ c] Multiply_assoc)
  then show ?thesis
    by (simp add: gsum_Multiply_left dot_def)
qed

lemma dot_eliminated:
  assumes "\<And>k. k < n \<Longrightarrow> r' ! k = Subtract (rj ! k) (Multiply f (ri ! k))"
  shows "dot n r' x = Add (dot n rj x) (Multiply f (dot n ri x))"
proof -
  have "dot n r' x =
      gsum n (\<lambda>k. Add (Multiply (rj ! k) (x ! k)) (Multiply f (Multiply (ri ! k) (x ! k))))"
    unfolding dot_def using assms
    by (intro gsum_cong) (simp add: Subtract_eq_Add Multiply_distrib_right Multiply_assoc)
  then show ?thesis
    by (simp add: gsum_Add gsum_Multiply_left dot_def)
qed

lemma dot_unit:
  assumes "i < n" "\<And>k. k < n \<Longrightarrow> r ! k = (if k = i then 1 else 0)"
  shows "dot n r x = x ! i"
proof -
  have "dot n r x = gsum n (\<lambda>k. if k = i then x ! i else 0)"
    unfolding dot_def using assms(2)
    by (intro gsum_cong) (simp add: Multiply_one_left Multiply_zero_left)
  also have "\<dots> = x ! i"
    using assms(1) gsum_single [of i n "\<lambda>k. if k = i then x ! i else 0"] by simp
  finally show ?thesis .
qed

lemma dot_update:
  assumes "m < n" "length x = n"
  shows "dot n r (x[m := Add (x ! m) t]) = Add (dot n r x) (Multiply (r ! m) t)"
proof -
  have "dot n r (x[m := Add (x ! m) t]) =
      gsum n (\<lambda>k. Add (Multiply (r ! k) (x ! k)) (if k = m then Multiply (r ! m) t else 0))"
    unfolding dot_def using assms
    by (intro gsum_cong) (simp add: Multiply_distrib Add_zero_right nth_list_update)
  also have "\<dots> = Add (dot n r x) (gsum n (\<lambda>k. if k = m then Multiply (r ! m) t else 0))"
    by (simp add: gsum_Add dot_def)
  also have "gsum n (\<lambda>k. if k = m then Multiply (r ! m) t else 0) = Multiply (r ! m) t"
    using assms(1) gsum_single [of m n "\<lambda>k. if k = m then Multiply (r ! m) t else 0"] by simp
  finally show ?thesis .
qed

lemma col_nth: "k < n \<Longrightarrow> col n S b ! k = S ! k ! b"
  by (simp add: col_def)

lemma length_col: "length (col n S b) = n"
  by (simp add: col_def)

text \<open>A left inverse makes the kernel trivial.\<close>

lemma identity_nth: "i < n \<Longrightarrow> k < n \<Longrightarrow> identity n ! i ! k = (if i = k then 1 else 0)"
  by (simp add: identity_def)

lemma mat_mult_nth:
  "i < n \<Longrightarrow> k < n \<Longrightarrow> mat_mult n B A ! i ! k = gsum n (\<lambda>m. Multiply (B ! i ! m) (A ! m ! k))"
  by (simp add: mat_mult_def)

lemma left_inverse_inj:
  assumes "mat_mult n B A = identity n"
  shows "inj_mat n A"
  unfolding inj_mat_def
proof (intro allI impI)
  fix x i
  assume x: "length x = n" and k: "ker n A x" and i: "i < n"
  have "x ! i = gsum n (\<lambda>k. Multiply (identity n ! i ! k) (x ! k))"
  proof -
    have "gsum n (\<lambda>k. Multiply (identity n ! i ! k) (x ! k)) =
        gsum n (\<lambda>k. if k = i then x ! i else 0)"
      using i by (intro gsum_cong) (auto simp: identity_nth Multiply_one_left Multiply_zero_left)
    also have "\<dots> = x ! i"
      using i gsum_single [of i n "\<lambda>k. if k = i then x ! i else 0"] by simp
    finally show ?thesis by simp
  qed
  also have "\<dots> = gsum n (\<lambda>k. gsum n (\<lambda>m. Multiply (B ! i ! m) (Multiply (A ! m ! k) (x ! k))))"
    using i
    by (intro gsum_cong)
      (simp add: assms [symmetric] mat_mult_nth gsum_Multiply_right [symmetric] Multiply_assoc)
  also have "\<dots> = gsum n (\<lambda>m. gsum n (\<lambda>k. Multiply (B ! i ! m) (Multiply (A ! m ! k) (x ! k))))"
    by (rule gsum_swap)
  also have "\<dots> = gsum n (\<lambda>m. Multiply (B ! i ! m) (dot n (A ! m) x))"
    by (simp add: gsum_Multiply_left dot_def)
  also have "\<dots> = 0"
    using k by (intro gsum_zero) (simp add: ker_def Multiply_zero_right)
  finally show "x ! i = 0" .
qed

text \<open>Swapping, scaling and eliminating rows keep the kernel.\<close>

lemma ker_swap:
  assumes "a < n" "b < n" "length M = n"
  shows "ker n (swap_rows a b M) x \<longleftrightarrow> ker n M x"
proof -
  have sw: "swap_rows a b M ! r = M ! (if r = a then b else if r = b then a else r)"
    if "r < n" for r
    using swap_rows_props [of a M b] assms by (cases "r = a"; cases "r = b") auto
  show ?thesis
  proof
    assume k: "ker n (swap_rows a b M) x"
    show "ker n M x"
      unfolding ker_def
    proof (intro allI impI)
      fix r assume r: "r < n"
      let ?r' = "if r = a then b else if r = b then a else r"
      have "?r' < n" using r assms by simp
      then have "dot n (swap_rows a b M ! ?r') x = 0"
        using k by (simp add: ker_def)
      moreover have "swap_rows a b M ! ?r' = M ! r"
        using sw [OF \<open>?r' < n\<close>] by (auto split: if_splits)
      ultimately show "dot n (M ! r) x = 0" by simp
    qed
  next
    assume k: "ker n M x"
    show "ker n (swap_rows a b M) x"
      unfolding ker_def
    proof (intro allI impI)
      fix r assume r: "r < n"
      then have "(if r = a then b else if r = b then a else r) < n"
        using assms by simp
      then show "dot n (swap_rows a b M ! r) x = 0"
        using k sw [OF r] by (simp add: ker_def)
    qed
  qed
qed

lemma ker_scaled:
  assumes "i < n" "c \<noteq> 0"
    and "\<And>k. k < n \<Longrightarrow> M' ! i ! k = Multiply (M ! i ! k) c"
    and "\<And>r. r \<noteq> i \<Longrightarrow> M' ! r = M ! r"
  shows "ker n M' x \<longleftrightarrow> ker n M x"
proof -
  have d: "dot n (M' ! i) x = Multiply c (dot n (M ! i) x)"
    using assms(3) by (rule dot_scaled)
  have "dot n (M' ! r) x = 0 \<longleftrightarrow> dot n (M ! r) x = 0" for r
  proof (cases "r = i")
    case True
    then show ?thesis
      using assms(2) by (simp add: d Multiply_eq_0_iff)
  next
    case False
    then show ?thesis by (simp add: assms(4))
  qed
  then show ?thesis by (simp add: ker_def)
qed

lemma ker_eliminated:
  assumes "i \<noteq> j"
    and "\<And>k. k < n \<Longrightarrow> M' ! j ! k = Subtract (M ! j ! k) (Multiply f (M ! i ! k))"
    and "\<And>r. r \<noteq> j \<Longrightarrow> M' ! r = M ! r"
    and "i < n"
  shows "ker n M' x \<longleftrightarrow> ker n M x"
proof -
  have d: "dot n (M' ! j) x = Add (dot n (M ! j) x) (Multiply f (dot n (M ! i) x))"
    using assms(2) by (rule dot_eliminated)
  have i: "M' ! i = M ! i"
    using assms(1,3) by simp
  show ?thesis
  proof
    assume k: "ker n M' x"
    then have zi: "dot n (M ! i) x = 0"
      using assms(4) i by (auto simp: ker_def)
    show "ker n M x"
      unfolding ker_def
    proof (intro allI impI)
      fix r assume r: "r < n"
      show "dot n (M ! r) x = 0"
      proof (cases "r = j")
        case True
        from k r True have "dot n (M' ! j) x = 0" by (simp add: ker_def)
        then show ?thesis
          by (simp add: d zi True Multiply_zero_right Add_zero_right)
      next
        case False
        with k r show ?thesis by (simp add: ker_def assms(3) [symmetric])
      qed
    qed
  next
    assume k: "ker n M x"
    then have zi: "dot n (M ! i) x = 0"
      using assms(4) by (simp add: ker_def)
    show "ker n M' x"
      unfolding ker_def
    proof (intro allI impI)
      fix r assume r: "r < n"
      show "dot n (M' ! r) x = 0"
      proof (cases "r = j")
        case True
        from k r True have "dot n (M ! j) x = 0" by (simp add: ker_def)
        then show ?thesis
          by (simp add: d zi True Multiply_zero_right Add_zero_right)
      next
        case False
        with k r show ?thesis by (simp add: ker_def assms(3))
      qed
    qed
  qed
qed

lemma inj_mat_ker_eq:
  "(\<And>x. ker n M' x \<longleftrightarrow> ker n M x) \<Longrightarrow> inj_mat n M \<Longrightarrow> inj_mat n M'"
  by (simp add: inj_mat_def)

section \<open>The decoder's elimination\<close>

lemma find_pivot_decode_props:
  assumes "i < n"
  shows "i \<le> find_pivot_decode n i C \<and> find_pivot_decode n i C < n \<and>
         (find_pivot_decode n i C \<noteq> i \<longrightarrow> C ! find_pivot_decode n i C ! i \<noteq> 0) \<and>
         (find_pivot_decode n i C = i \<longrightarrow> (\<forall>j. i < j \<and> j < n \<longrightarrow> C ! j ! i = 0))"
proof (cases "find (\<lambda>j. C ! j ! i \<noteq> 0) [i + 1..<n]")
  case None
  then have "\<forall>j. i < j \<and> j < n \<longrightarrow> C ! j ! i = 0"
    by (auto simp: find_None_iff)
  with None assms show ?thesis
    by (simp add: find_pivot_decode_def)
next
  case (Some j)
  then have "j \<in> set [i + 1..<n]" "C ! j ! i \<noteq> 0"
    by (auto simp: find_Some_iff)
  with Some show ?thesis
    by (simp add: find_pivot_decode_def)
qed

lemma pivot_nonzero:
  assumes inv: "gj_inv n p i C Y S" and i: "i < n"
  shows "C ! find_pivot_decode n i C ! i \<noteq> 0"
proof (cases "find_pivot_decode n i C = i")
  case False
  then show ?thesis
    using find_pivot_decode_props [OF i, of C] by simp
next
  case True
  then have below: "\<And>j. i < j \<Longrightarrow> j < n \<Longrightarrow> C ! j ! i = 0"
    using find_pivot_decode_props [OF i, of C] by simp
  from inv have u: "\<And>r k. r < n \<Longrightarrow> k < i \<Longrightarrow> C ! r ! k = (if r = k then 1 else 0)"
    and inj: "inj_mat n C"
    by (auto simp: gj_inv_def unit_cols_def)
  show ?thesis
  proof
    assume "C ! find_pivot_decode n i C ! i = 0"
    with True have z: "C ! i ! i = 0" by simp
    define x where "x = map (\<lambda>k. if k < i then C ! k ! i else if k = i then 1 else 0) [0..<n]"
    have lx: "length x = n" by (simp add: x_def)
    have xk: "\<And>k. k < n \<Longrightarrow> x ! k = (if k < i then C ! k ! i else if k = i then 1 else 0)"
      by (simp add: x_def)
    have "ker n C x"
      unfolding ker_def
    proof (intro allI impI)
      fix r assume r: "r < n"
      show "dot n (C ! r) x = 0"
      proof (cases "r < i")
        case True
        have "dot n (C ! r) x =
            Add (Multiply (C ! r ! r) (x ! r)) (Multiply (C ! r ! i) (x ! i))"
          unfolding dot_def
        proof (rule gsum_pair)
          show "r < n" by (rule r)
          show "i < n" by (rule i)
          show "r \<noteq> i" using True by simp
          fix k assume k: "k < n" "k \<noteq> r" "k \<noteq> i"
          show "Multiply (C ! r ! k) (x ! k) = 0"
          proof (cases "k < i")
            case True
            with u [OF r True] k show ?thesis by (simp add: Multiply_zero_left)
          next
            case False
            with k xk [of k] show ?thesis by (simp add: Multiply_zero_right)
          qed
        qed
        also have "\<dots> = Add (C ! r ! i) (C ! r ! i)"
          using u [OF r True] xk [OF r] xk [OF i] True
          by (simp add: Multiply_one_left Multiply_one_right)
        finally show ?thesis by (simp add: Add_self)
      next
        case False
        have "C ! r ! i = 0"
          using False below [of r] r z by (cases "r = i") simp_all
        have "gsum n (\<lambda>k. Multiply (C ! r ! k) (x ! k)) = 0"
        proof (rule gsum_zero)
          fix k assume k: "k < n"
          show "Multiply (C ! r ! k) (x ! k) = 0"
          proof (cases "k < i")
            case True
            with u [OF r True] False show ?thesis by (simp add: Multiply_zero_left)
          next
            case kf: False
            show ?thesis
            proof (cases "k = i")
              case True
              with \<open>C ! r ! i = 0\<close> show ?thesis by (simp add: Multiply_zero_left)
            next
              case False
              with kf k xk [of k] show ?thesis by (simp add: Multiply_zero_right)
            qed
          qed
        qed
        then show ?thesis by (simp add: dot_def)
      qed
    qed
    with inj lx i have "x ! i = 0"
      by (simp add: inj_mat_def)
    with xk [OF i] show False by simp
  qed
qed

lemma dims_swap:
  "a < n \<Longrightarrow> b < n \<Longrightarrow> dims n p M \<Longrightarrow> dims n p (swap_rows a b M)"
  by (auto simp: dims_def swap_rows_def nth_list_update)

lemma gj_inv_swap:
  assumes inv: "gj_inv n p i C Y S" and a: "i \<le> a" "a < n" and b: "i \<le> b" "b < n"
  shows "gj_inv n p i (swap_rows a b C) (swap_rows a b Y) S"
proof -
  from inv have dC: "dims n n C" and dY: "dims n p Y" and u: "unit_cols n i C"
    and inj: "inj_mat n C" and s: "sol n p C Y S"
    by (simp_all add: gj_inv_def)
  have lC: "length C = n" and lY: "length Y = n"
    using dC dY by (simp_all add: dims_def)
  have swC: "swap_rows a b C ! r = C ! (if r = a then b else if r = b then a else r)"
    if "r < n" for r
    using that a b lC by (auto simp: swap_rows_def nth_list_update)
  have swY: "swap_rows a b Y ! r = Y ! (if r = a then b else if r = b then a else r)"
    if "r < n" for r
    using that a b lY by (auto simp: swap_rows_def nth_list_update)
  have 1: "unit_cols n i (swap_rows a b C)"
    unfolding unit_cols_def
  proof (intro allI impI)
    fix r k assume r: "r < n" and k: "k < i"
    let ?r' = "if r = a then b else if r = b then a else r"
    have r': "?r' < n" using r a b by simp
    have "C ! ?r' ! k = (if ?r' = k then 1 else 0)"
      using u r' k by (simp add: unit_cols_def)
    moreover have "(?r' = k) = (r = k)"
      using a b k by auto
    ultimately show "swap_rows a b C ! r ! k = (if r = k then 1 else 0)"
      by (simp add: swC [OF r])
  qed
  have 2: "inj_mat n (swap_rows a b C)"
    using inj ker_swap [OF a(2) b(2) lC] by (simp add: inj_mat_def)
  have 3: "sol n p (swap_rows a b C) (swap_rows a b Y) S"
    unfolding sol_def
  proof (intro allI impI)
    fix r c assume r: "r < n" and c: "c < p"
    let ?r' = "if r = a then b else if r = b then a else r"
    have r': "?r' < n" using r a b by simp
    then have "dot n (C ! ?r') (col n S c) = Y ! ?r' ! c"
      using s c by (simp add: sol_def)
    then show "dot n (swap_rows a b C ! r) (col n S c) = swap_rows a b Y ! r ! c"
      by (simp add: swC [OF r] swY [OF r])
  qed
  show ?thesis
    using 1 2 3 dims_swap [OF a(2) b(2) dC] dims_swap [OF a(2) b(2) dY]
    by (simp add: gj_inv_def)
qed

lemma gj_inv_scale:
  assumes inv: "gj_inv n p i C Y S" and i: "i < n" and nz: "C ! i ! i \<noteq> 0"
  shows "gj_inv n p i (scale_row n i (Inverse (C ! i ! i)) C)
           (scale_row p i (Inverse (C ! i ! i)) Y) S \<and>
         scale_row n i (Inverse (C ! i ! i)) C ! i ! i = 1"
proof -
  let ?c = "Inverse (C ! i ! i)"
  let ?C = "scale_row n i ?c C" and ?Y = "scale_row p i ?c Y"
  from inv have dC: "dims n n C" and dY: "dims n p Y" and u: "unit_cols n i C"
    and inj: "inj_mat n C" and s: "sol n p C Y S"
    by (simp_all add: gj_inv_def)
  have lC: "i < length C" and lY: "i < length Y"
    using dC dY i by (simp_all add: dims_def)
  have rowC: "length (C ! i) = n" and rowY: "length (Y ! i) = p"
    using dC dY i by (simp_all add: dims_def)
  note pC = scale_row_props [OF lC, of n ?c]
  note pY = scale_row_props [OF lY, of p ?c]
  have oC: "\<And>r. r \<noteq> i \<Longrightarrow> ?C ! r = C ! r" and oY: "\<And>r. r \<noteq> i \<Longrightarrow> ?Y ! r = Y ! r"
    using pC pY by simp_all
  have eC: "\<And>k. k < n \<Longrightarrow> ?C ! i ! k = Multiply (C ! i ! k) ?c"
    using pC rowC by simp
  have eY: "\<And>k. k < p \<Longrightarrow> ?Y ! i ! k = Multiply (Y ! i ! k) ?c"
    using pY rowY by simp
  have cz: "?c \<noteq> 0"
    using nz by (rule Inverse_nonzero)
  have d1: "dims n n ?C"
    unfolding dims_def
  proof (intro conjI allI impI)
    show "length ?C = n" using pC dC by (simp add: dims_def)
    fix r assume "r < n"
    then show "length (?C ! r) = n"
      using pC dC oC [of r] by (cases "r = i") (simp_all add: dims_def)
  qed
  have d2: "dims n p ?Y"
    unfolding dims_def
  proof (intro conjI allI impI)
    show "length ?Y = n" using pY dY by (simp add: dims_def)
    fix r assume "r < n"
    then show "length (?Y ! r) = p"
      using pY dY oY [of r] by (cases "r = i") (simp_all add: dims_def)
  qed
  have 1: "unit_cols n i ?C"
    unfolding unit_cols_def
  proof (intro allI impI)
    fix r k assume r: "r < n" and k: "k < i"
    have old: "C ! r ! k = (if r = k then 1 else 0)"
      using u r k by (simp add: unit_cols_def)
    show "?C ! r ! k = (if r = k then 1 else 0)"
    proof (cases "r = i")
      case True
      with old k i show ?thesis
        by (simp add: eC Multiply_zero_left)
    next
      case False
      with old show ?thesis by (simp add: oC)
    qed
  qed
  have 2: "inj_mat n ?C"
    using inj ker_scaled [OF i cz eC oC] by (simp add: inj_mat_def)
  have 3: "sol n p ?C ?Y S"
    unfolding sol_def
  proof (intro allI impI)
    fix r b assume r: "r < n" and b: "b < p"
    have old: "dot n (C ! r) (col n S b) = Y ! r ! b"
      using s r b by (simp add: sol_def)
    show "dot n (?C ! r) (col n S b) = ?Y ! r ! b"
    proof (cases "r = i")
      case True
      have "dot n (?C ! i) (col n S b) = Multiply ?c (dot n (C ! i) (col n S b))"
        using eC by (rule dot_scaled)
      with old True b show ?thesis
        by (simp add: eY Multiply_commute)
    next
      case False
      with old show ?thesis by (simp add: oC oY)
    qed
  qed
  have 4: "?C ! i ! i = 1"
    using i nz by (simp add: eC Multiply_Inverse)
  show ?thesis
    using d1 d2 1 2 3 4 by (simp add: gj_inv_def)
qed

lemma gj_inv_eliminate_row:
  assumes inv: "gj_inv n p i C Y S" and i: "i < n" and j: "j < n" and ij: "j \<noteq> i"
    and one: "C ! i ! i = 1"
  shows "gj_inv n p i (elim_row 0 n i j (C ! j ! i) C) (elim_row 0 p i j (C ! j ! i) Y) S \<and>
         elim_row 0 n i j (C ! j ! i) C ! j ! i = 0 \<and>
         (\<forall>r. r \<noteq> j \<longrightarrow> elim_row 0 n i j (C ! j ! i) C ! r = C ! r)"
proof -
  let ?f = "C ! j ! i"
  let ?C = "elim_row 0 n i j ?f C" and ?Y = "elim_row 0 p i j ?f Y"
  from inv have dC: "dims n n C" and dY: "dims n p Y" and u: "unit_cols n i C"
    and inj: "inj_mat n C" and s: "sol n p C Y S"
    by (simp_all add: gj_inv_def)
  have lC: "j < length C" and lY: "j < length Y"
    using dC dY j by (simp_all add: dims_def)
  have rowC: "length (C ! j) = n" and rowY: "length (Y ! j) = p"
    using dC dY j by (simp_all add: dims_def)
  have ij': "i \<noteq> j" using ij by simp
  note pC = elim_row_props [OF lC ij', of 0 n ?f]
  note pY = elim_row_props [OF lY ij', of 0 p ?f]
  have oC: "\<And>r. r \<noteq> j \<Longrightarrow> ?C ! r = C ! r" and oY: "\<And>r. r \<noteq> j \<Longrightarrow> ?Y ! r = Y ! r"
    using pC pY by simp_all
  have eC: "\<And>k. k < n \<Longrightarrow> ?C ! j ! k = Subtract (C ! j ! k) (Multiply ?f (C ! i ! k))"
    using pC rowC by simp
  have eY: "\<And>k. k < p \<Longrightarrow> ?Y ! j ! k = Subtract (Y ! j ! k) (Multiply ?f (Y ! i ! k))"
    using pY rowY by simp
  have d1: "dims n n ?C"
    unfolding dims_def
  proof (intro conjI allI impI)
    show "length ?C = n" using pC dC by (simp add: dims_def)
    fix r assume "r < n"
    then show "length (?C ! r) = n"
      using pC dC oC [of r] by (cases "r = j") (simp_all add: dims_def)
  qed
  have d2: "dims n p ?Y"
    unfolding dims_def
  proof (intro conjI allI impI)
    show "length ?Y = n" using pY dY by (simp add: dims_def)
    fix r assume "r < n"
    then show "length (?Y ! r) = p"
      using pY dY oY [of r] by (cases "r = j") (simp_all add: dims_def)
  qed
  have 1: "unit_cols n i ?C"
    unfolding unit_cols_def
  proof (intro allI impI)
    fix r k assume r: "r < n" and k: "k < i"
    have old: "C ! r ! k = (if r = k then 1 else 0)"
      using u r k by (simp add: unit_cols_def)
    have ik: "C ! i ! k = 0"
      using u i k by (simp add: unit_cols_def)
    show "?C ! r ! k = (if r = k then 1 else 0)"
    proof (cases "r = j")
      case True
      with old k i show ?thesis
        by (simp add: eC ik Multiply_zero_right Subtract_eq_Add Add_zero_right)
    next
      case False
      with old show ?thesis by (simp add: oC)
    qed
  qed
  have 2: "inj_mat n ?C"
    using inj ker_eliminated [OF ij' eC oC i] by (simp add: inj_mat_def)
  have 3: "sol n p ?C ?Y S"
    unfolding sol_def
  proof (intro allI impI)
    fix r b assume r: "r < n" and b: "b < p"
    have old: "\<And>r. r < n \<Longrightarrow> dot n (C ! r) (col n S b) = Y ! r ! b"
      using s b by (simp add: sol_def)
    show "dot n (?C ! r) (col n S b) = ?Y ! r ! b"
    proof (cases "r = j")
      case True
      have "dot n (?C ! j) (col n S b) =
          Add (dot n (C ! j) (col n S b)) (Multiply ?f (dot n (C ! i) (col n S b)))"
        using eC by (rule dot_eliminated)
      with old [OF i] old [OF j] True b show ?thesis
        by (simp add: eY Subtract_eq_Add)
    next
      case False
      with old [OF r] show ?thesis by (simp add: oC oY)
    qed
  qed
  have 4: "?C ! j ! i = 0"
    using i by (simp add: eC one Multiply_one_right Subtract_eq_Add Add_self)
  show ?thesis
    using d1 d2 1 2 3 4 oC by (simp add: gj_inv_def)
qed

text \<open>The loop over the rows \<open>0..<m\<close> of \<open>eliminate_column\<close>.\<close>

lemma eliminate_column_loop:
  assumes inv: "gj_inv n p i C Y S" and i: "i < n" and one: "C ! i ! i = 1" and m: "m \<le> n"
  shows "\<exists>C' Y'.
           fold (\<lambda>j (coeffMatrix, payloadMatrix).
                   if j \<noteq> i \<and> coeffMatrix ! j ! i \<noteq> 0
                   then let factor = coeffMatrix ! j ! i
                        in (elim_row 0 n i j factor coeffMatrix,
                            elim_row 0 p i j factor payloadMatrix)
                   else (coeffMatrix, payloadMatrix))
             [0..<m] (C, Y) = (C', Y') \<and>
           gj_inv n p i C' Y' S \<and> C' ! i ! i = 1 \<and>
           (\<forall>r<m. r \<noteq> i \<longrightarrow> C' ! r ! i = 0)"
  using m
proof (induction m)
  case 0
  then show ?case using inv one by simp
next
  case (Suc m)
  then obtain C1 Y1 where f: "fold (\<lambda>j (coeffMatrix, payloadMatrix).
                   if j \<noteq> i \<and> coeffMatrix ! j ! i \<noteq> 0
                   then let factor = coeffMatrix ! j ! i
                        in (elim_row 0 n i j factor coeffMatrix,
                            elim_row 0 p i j factor payloadMatrix)
                   else (coeffMatrix, payloadMatrix))
             [0..<m] (C, Y) = (C1, Y1)"
    and inv1: "gj_inv n p i C1 Y1 S" and one1: "C1 ! i ! i = 1"
    and z1: "\<And>r. r < m \<Longrightarrow> r \<noteq> i \<Longrightarrow> C1 ! r ! i = 0"
    by auto
  have mn: "m < n" using Suc.prems by simp
  show ?case
  proof (cases "m \<noteq> i \<and> C1 ! m ! i \<noteq> 0")
    case True
    then have mi: "m \<noteq> i" by simp
    let ?C = "elim_row 0 n i m (C1 ! m ! i) C1" and ?Y = "elim_row 0 p i m (C1 ! m ! i) Y1"
    have e: "gj_inv n p i ?C ?Y S" "?C ! m ! i = 0" "\<And>r. r \<noteq> m \<Longrightarrow> ?C ! r = C1 ! r"
      using gj_inv_eliminate_row [OF inv1 i mn mi one1] by simp_all
    have "?C ! i ! i = 1"
      using e(3) [of i] mi one1 by simp
    moreover have "\<forall>r<Suc m. r \<noteq> i \<longrightarrow> ?C ! r ! i = 0"
    proof (intro allI impI)
      fix r assume "r < Suc m" "r \<noteq> i"
      then show "?C ! r ! i = 0"
        using e(2) e(3) [of r] z1 [of r] by (cases "r = m") simp_all
    qed
    ultimately show ?thesis
      using True e(1) by (simp add: f Let_def)
  next
    case False
    have "\<forall>r<Suc m. r \<noteq> i \<longrightarrow> C1 ! r ! i = 0"
    proof (intro allI impI)
      fix r assume "r < Suc m" "r \<noteq> i"
      then show "C1 ! r ! i = 0"
        using False z1 [of r] by (cases "r = m") auto
    qed
    with False inv1 one1 show ?thesis
      by (auto simp: f)
  qed
qed

lemma gj_inv_eliminate_column:
  assumes inv: "gj_inv n p i C Y S" and i: "i < n" and one: "C ! i ! i = 1"
  shows "\<exists>C' Y'. eliminate_column n p i (C, Y) = (C', Y') \<and> gj_inv n p (Suc i) C' Y' S"
proof -
  obtain C' Y' where f: "eliminate_column n p i (C, Y) = (C', Y')"
    and inv': "gj_inv n p i C' Y' S" and one': "C' ! i ! i = 1"
    and z: "\<And>r. r < n \<Longrightarrow> r \<noteq> i \<Longrightarrow> C' ! r ! i = 0"
    using eliminate_column_loop [OF inv i one, of n] unfolding eliminate_column_def by auto
  have "unit_cols n (Suc i) C'"
    unfolding unit_cols_def
  proof (intro allI impI)
    fix r k assume r: "r < n" and k: "k < Suc i"
    show "C' ! r ! k = (if r = k then 1 else 0)"
    proof (cases "k = i")
      case True
      then show ?thesis using one' z [OF r] by auto
    next
      case False
      with k have "k < i" by simp
      with inv' r show ?thesis by (simp add: gj_inv_def unit_cols_def)
    qed
  qed
  with inv' have "gj_inv n p (Suc i) C' Y' S"
    by (simp add: gj_inv_def)
  with f show ?thesis by blast
qed

lemma gj_step_inv:
  assumes inv: "gj_inv n p i C Y S" and i: "i < n"
  shows "\<exists>C' Y'. gj_step n p i (C, Y) = Some (C', Y') \<and> gj_inv n p (Suc i) C' Y' S"
proof -
  let ?pr = "find_pivot_decode n i C"
  have pr: "i \<le> ?pr" "?pr < n"
    using find_pivot_decode_props [OF i, of C] by simp_all
  have nz: "C ! ?pr ! i \<noteq> 0"
    by (rule pivot_nonzero [OF inv i])
  let ?C1 = "if ?pr \<noteq> i then swap_rows i ?pr C else C"
  let ?Y1 = "if ?pr \<noteq> i then swap_rows i ?pr Y else Y"
  from inv have lC: "length C = n"
    by (simp add: gj_inv_def dims_def)
  have inv1: "gj_inv n p i ?C1 ?Y1 S"
    using gj_inv_swap [OF inv order_refl i pr] inv by simp
  have piv: "?C1 ! i ! i \<noteq> 0"
    using nz swap_rows_props(2) [of i C ?pr] i pr lC by (cases "?pr = i") simp_all
  let ?c = "Inverse (?C1 ! i ! i)"
  let ?C2 = "scale_row n i ?c ?C1" and ?Y2 = "scale_row p i ?c ?Y1"
  have inv2: "gj_inv n p i ?C2 ?Y2 S" and one: "?C2 ! i ! i = 1"
    using gj_inv_scale [OF inv1 i piv] by simp_all
  obtain C' Y' where e: "eliminate_column n p i (?C2, ?Y2) = (C', Y')"
    and inv': "gj_inv n p (Suc i) C' Y' S"
    using gj_inv_eliminate_column [OF inv2 i one] by blast
  have "gj_step n p i (C, Y) = Some (C', Y')"
    unfolding gj_step_def Let_def using nz piv e by simp
  with inv' show ?thesis by blast
qed

lemma gauss_jordan_loop:
  assumes inv: "gj_inv n p 0 C Y S" and m: "m \<le> n"
  shows "\<exists>C' Y'.
           fold (\<lambda>i s. case s of None \<Rightarrow> None | Some cy \<Rightarrow> gj_step n p i cy)
             [0..<m] (Some (C, Y)) = Some (C', Y') \<and>
           gj_inv n p m C' Y' S"
  using m
proof (induction m)
  case 0
  then show ?case using inv by simp
next
  case (Suc m)
  then obtain C1 Y1 where f: "fold (\<lambda>i s. case s of None \<Rightarrow> None | Some cy \<Rightarrow> gj_step n p i cy)
             [0..<m] (Some (C, Y)) = Some (C1, Y1)"
    and inv1: "gj_inv n p m C1 Y1 S"
    by auto
  have "m < n" using Suc.prems by simp
  from gj_step_inv [OF inv1 this] f show ?case
    by simp
qed

lemma gauss_jordan_solves:
  assumes inv: "gj_inv n p 0 C Y S"
  shows "\<exists>C' Y'. gauss_jordan n p C Y = Some (C', Y') \<and> dims n p Y' \<and>
           (\<forall>r<n. \<forall>b<p. Y' ! r ! b = S ! r ! b)"
proof -
  obtain C' Y' where g: "gauss_jordan n p C Y = Some (C', Y')"
    and inv': "gj_inv n p n C' Y' S"
    using gauss_jordan_loop [OF inv order_refl] unfolding gauss_jordan_def by blast
  have "Y' ! r ! b = S ! r ! b" if r: "r < n" and b: "b < p" for r b
  proof -
    have "dot n (C' ! r) (col n S b) = Y' ! r ! b"
      using inv' r b by (simp add: gj_inv_def sol_def)
    moreover have "dot n (C' ! r) (col n S b) = col n S b ! r"
      using inv' r by (intro dot_unit) (auto simp: gj_inv_def unit_cols_def)
    ultimately show ?thesis
      using r by (simp add: col_nth)
  qed
  with g inv' show ?thesis
    by (auto simp: gj_inv_def)
qed

section \<open>The rank computation\<close>

lemma find_pivot_rank_props:
  "r \<le> n \<Longrightarrow>
     r \<le> find_pivot_rank n j M r \<and> find_pivot_rank n j M r \<le> n \<and>
     (\<forall>q. r \<le> q \<and> q < find_pivot_rank n j M r \<longrightarrow> M ! q ! j = 0) \<and>
     (find_pivot_rank n j M r < n \<longrightarrow> M ! find_pivot_rank n j M r ! j \<noteq> 0)"
proof (induction n j M r rule: find_pivot_rank.induct)
  case (1 n j M r)
  show ?case
  proof (cases "r < n \<and> M ! r ! j = 0")
    case True
    then have eq: "find_pivot_rank n j M r = find_pivot_rank n j M (Suc r)"
      by (subst find_pivot_rank.simps) simp
    have IH: "Suc r \<le> find_pivot_rank n j M (Suc r) \<and> find_pivot_rank n j M (Suc r) \<le> n \<and>
        (\<forall>q. Suc r \<le> q \<and> q < find_pivot_rank n j M (Suc r) \<longrightarrow> M ! q ! j = 0) \<and>
        (find_pivot_rank n j M (Suc r) < n \<longrightarrow> M ! find_pivot_rank n j M (Suc r) ! j \<noteq> 0)"
      using "1.IH" True by simp
    have "M ! q ! j = 0" if "r \<le> q \<and> q < find_pivot_rank n j M (Suc r)" for q
      using that IH True by (cases "q = r") auto
    with IH show ?thesis
      by (auto simp: eq)
  next
    case False
    then have eq: "find_pivot_rank n j M r = r"
      by (subst find_pivot_rank.simps) auto
    with False "1.prems" show ?thesis
      by auto
  qed
qed

text \<open>One round of the loop of \<open>rank_elim_below\<close>, on row \<open>i\<close>.\<close>

lemma rank_elim_step:
  fixes j :: nat
  assumes d: "dims n n M" and r: "r < n" and i: "i < n" and ir: "i \<noteq> r"
  defines "M' \<equiv> (if M ! i ! j \<noteq> 0
                   then elim_row j n r i (Divide (M ! i ! j) (M ! r ! j)) M else M)"
  shows "dims n n M'"
    and "\<And>q. q \<noteq> i \<Longrightarrow> M' ! q = M ! q"
    and "\<And>k. k < n \<Longrightarrow> M' ! i ! k =
           (if M ! i ! j \<noteq> 0 \<and> j \<le> k
            then Subtract (M ! i ! k) (Multiply (Divide (M ! i ! j) (M ! r ! j)) (M ! r ! k))
            else M ! i ! k)"
proof -
  let ?f = "Divide (M ! i ! j) (M ! r ! j)"
  have li: "i < length M" and row: "length (M ! i) = n" and lM: "length M = n"
    using d i by (simp_all add: dims_def)
  have ri: "r \<noteq> i" using ir by simp
  note pe = elim_row_props [OF li ri, of j n ?f]
  show o: "\<And>q. q \<noteq> i \<Longrightarrow> M' ! q = M ! q"
    using pe by (simp add: M'_def)
  show "dims n n M'"
    unfolding dims_def
  proof (intro conjI allI impI)
    show "length M' = n" using pe lM by (simp add: M'_def)
    fix q assume "q < n"
    then show "length (M' ! q) = n"
      using pe d o [of q] by (cases "q = i") (simp_all add: M'_def dims_def)
  qed
  show "\<And>k. k < n \<Longrightarrow> M' ! i ! k =
           (if M ! i ! j \<noteq> 0 \<and> j \<le> k
            then Subtract (M ! i ! k) (Multiply ?f (M ! r ! k))
            else M ! i ! k)"
    using pe row by (simp add: M'_def)
qed

lemma rank_elim_step_ker:
  assumes d: "dims n n M" and r: "r < n" and i: "i < n" and ir: "i \<noteq> r"
    and z: "\<And>k. k < j \<Longrightarrow> M ! r ! k = 0"
  shows "ker n (if M ! i ! j \<noteq> 0
                then elim_row j n r i (Divide (M ! i ! j) (M ! r ! j)) M else M) x
         \<longleftrightarrow> ker n M x"
proof (cases "M ! i ! j \<noteq> 0")
  case False
  then show ?thesis by simp
next
  case True
  let ?f = "Divide (M ! i ! j) (M ! r ! j)"
  let ?M = "elim_row j n r i ?f M"
  note st = rank_elim_step [OF d r i ir, where j = j]
  have e: "?M ! i ! k = Subtract (M ! i ! k) (Multiply ?f (M ! r ! k))" if "k < n" for k
  proof (cases "j \<le> k")
    case True
    with st(3) [OF that] \<open>M ! i ! j \<noteq> 0\<close> show ?thesis by simp
  next
    case False
    then have "M ! r ! k = 0" using z by simp
    with st(3) [OF that] False \<open>M ! i ! j \<noteq> 0\<close> show ?thesis
      by (simp add: Multiply_zero_right Subtract_eq_Add Add_zero_right)
  qed
  have o: "?M ! q = M ! q" if "q \<noteq> i" for q
    using st(2) [OF that] True by simp
  have ri: "r \<noteq> i" using ir by simp
  show ?thesis
    using ker_eliminated [OF ri e o r] True by simp
qed

text \<open>The loop of \<open>rank_elim_below\<close> over the rows \<open>r + 1..<m\<close>.\<close>

lemma rank_elim_upto_empty: "m \<le> r + 1 \<Longrightarrow> rank_elim_upto n j r m M = M"
  by (simp add: rank_elim_upto_def)

lemma rank_elim_upto_Suc:
  "r < m \<Longrightarrow> rank_elim_upto n j r (Suc m) M =
     (let F = rank_elim_upto n j r m M
      in if F ! m ! j \<noteq> 0 then elim_row j n r m (Divide (F ! m ! j) (F ! r ! j)) F else F)"
  by (simp add: rank_elim_upto_def Let_def)

lemma rank_elim_below_upto: "rank_elim_below n j r M = rank_elim_upto n j r n M"
  by (simp add: rank_elim_below_def rank_elim_upto_def)

lemma rank_elim_upto_props:
  assumes d: "dims n n M" and r: "r < n" and m: "m \<le> n"
  shows "dims n n (rank_elim_upto n j r m M) \<and>
         (\<forall>q. q \<le> r \<or> m \<le> q \<longrightarrow> rank_elim_upto n j r m M ! q = M ! q) \<and>
         (\<forall>i k. r < i \<and> i < m \<and> k < n \<longrightarrow>
            rank_elim_upto n j r m M ! i ! k =
            (if M ! i ! j \<noteq> 0 \<and> j \<le> k
             then Subtract (M ! i ! k) (Multiply (Divide (M ! i ! j) (M ! r ! j)) (M ! r ! k))
             else M ! i ! k)) \<and>
         ((\<forall>k<j. M ! r ! k = 0) \<longrightarrow>
          (\<forall>x. ker n (rank_elim_upto n j r m M) x \<longleftrightarrow> ker n M x))"
  using m
proof (induction m)
  case 0
  then show ?case using d by (simp add: rank_elim_upto_empty)
next
  case (Suc m)
  let ?F = "rank_elim_upto n j r m M"
  show ?case
  proof (cases "r < m")
    case False
    then have e: "rank_elim_upto n j r (Suc m) M = M"
      by (simp add: rank_elim_upto_empty)
    have none: "\<not> (r < i \<and> i < Suc m \<and> k < n)" for i k
      using False by auto
    show ?thesis
      unfolding e using d none by blast
  next
    case True
    then have rm: "r < m" by simp
    have mn: "m < n" using Suc.prems by simp
    have mle: "m \<le> n" using mn by simp
    note IH = Suc.IH [OF mle]
    have dF: "dims n n ?F"
      using IH by (rule conjunct1)
    have oF: "?F ! q = M ! q" if "q \<le> r \<or> m \<le> q" for q
      using IH [THEN conjunct2, THEN conjunct1] that by blast
    have eF: "?F ! i ! k =
            (if M ! i ! j \<noteq> 0 \<and> j \<le> k
             then Subtract (M ! i ! k) (Multiply (Divide (M ! i ! j) (M ! r ! j)) (M ! r ! k))
             else M ! i ! k)" if "r < i" "i < m" "k < n" for i k
      using IH [THEN conjunct2, THEN conjunct2, THEN conjunct1] that by blast
    have kF: "ker n ?F x \<longleftrightarrow> ker n M x" if "\<forall>k<j. M ! r ! k = 0" for x
      using IH [THEN conjunct2, THEN conjunct2, THEN conjunct2] that by blast
    define N where "N = (if ?F ! m ! j \<noteq> 0
              then elim_row j n r m (Divide (?F ! m ! j) (?F ! r ! j)) ?F else ?F)"
    have step: "rank_elim_upto n j r (Suc m) M = N"
      using rm by (simp add: rank_elim_upto_Suc Let_def N_def)
    have mr: "m \<noteq> r" using rm by simp
    note st = rank_elim_step [OF dF r mn mr, where j = j, folded N_def]
    have Fm: "?F ! m = M ! m" and Fr: "?F ! r = M ! r"
      using oF [of m] oF [of r] by simp_all
    have c2: "N ! q = M ! q" if "q \<le> r \<or> Suc m \<le> q" for q
    proof -
      from that rm have "q \<noteq> m" by auto
      then have "N ! q = ?F ! q" by (rule st(2))
      also have "\<dots> = M ! q" using that by (intro oF) auto
      finally show ?thesis .
    qed
    have c3: "N ! i ! k =
            (if M ! i ! j \<noteq> 0 \<and> j \<le> k
             then Subtract (M ! i ! k) (Multiply (Divide (M ! i ! j) (M ! r ! j)) (M ! r ! k))
             else M ! i ! k)" if "r < i" "i < Suc m" "k < n" for i k
    proof (cases "i = m")
      case True
      show ?thesis
        using st(3) [OF that(3)] by (simp only: True Fm Fr)
    next
      case False
      then have "N ! i = ?F ! i" by (rule st(2))
      with eF [of i k] that False show ?thesis by simp
    qed
    have c4: "ker n N x \<longleftrightarrow> ker n M x" if z: "\<forall>k<j. M ! r ! k = 0" for x
    proof -
      have "\<And>k. k < j \<Longrightarrow> ?F ! r ! k = 0"
        using z Fr by simp
      then have "ker n N x \<longleftrightarrow> ker n ?F x"
        unfolding N_def by (rule rank_elim_step_ker [OF dF r mn mr])
      with kF z show ?thesis by simp
    qed
    show ?thesis
      unfolding step
    proof (intro conjI allI impI)
      show "dims n n N" by (rule st(1))
      show "N ! q = M ! q" if "q \<le> r \<or> Suc m \<le> q" for q
        using that by (rule c2)
      show "N ! i ! k =
            (if M ! i ! j \<noteq> 0 \<and> j \<le> k
             then Subtract (M ! i ! k) (Multiply (Divide (M ! i ! j) (M ! r ! j)) (M ! r ! k))
             else M ! i ! k)" if "r < i \<and> i < Suc m \<and> k < n" for i k
        using that c3 [of i k] by simp
      show "ker n N x = ker n M x" if "\<forall>k<j. M ! r ! k = 0" for x
        using that by (rule c4)
    qed
  qed
qed

lemma rank_elim_below_props:
  assumes d: "dims n n M" and r: "r < n"
  shows "dims n n (rank_elim_below n j r M)"
    and "\<And>q. q \<le> r \<Longrightarrow> rank_elim_below n j r M ! q = M ! q"
    and "\<And>i k. r < i \<Longrightarrow> i < n \<Longrightarrow> k < n \<Longrightarrow> rank_elim_below n j r M ! i ! k =
            (if M ! i ! j \<noteq> 0 \<and> j \<le> k
             then Subtract (M ! i ! k) (Multiply (Divide (M ! i ! j) (M ! r ! j)) (M ! r ! k))
             else M ! i ! k)"
    and "(\<And>k. k < j \<Longrightarrow> M ! r ! k = 0) \<Longrightarrow> ker n (rank_elim_below n j r M) x \<longleftrightarrow> ker n M x"
proof -
  note p = rank_elim_upto_props [OF d r order_refl, of j, folded rank_elim_below_upto]
  show "dims n n (rank_elim_below n j r M)"
    using p by (rule conjunct1)
  show "\<And>q. q \<le> r \<Longrightarrow> rank_elim_below n j r M ! q = M ! q"
    using p [THEN conjunct2, THEN conjunct1] by blast
  show "\<And>i k. r < i \<Longrightarrow> i < n \<Longrightarrow> k < n \<Longrightarrow> rank_elim_below n j r M ! i ! k =
            (if M ! i ! j \<noteq> 0 \<and> j \<le> k
             then Subtract (M ! i ! k) (Multiply (Divide (M ! i ! j) (M ! r ! j)) (M ! r ! k))
             else M ! i ! k)"
    using p [THEN conjunct2, THEN conjunct2, THEN conjunct1] by blast
  show "(\<And>k. k < j \<Longrightarrow> M ! r ! k = 0) \<Longrightarrow> ker n (rank_elim_below n j r M) x \<longleftrightarrow> ker n M x"
    using p [THEN conjunct2, THEN conjunct2, THEN conjunct2] by blast
qed

text \<open>A matrix with an all-zero row never reaches full rank.\<close>

lemma rank_column_zero_row:
  assumes d: "dims n n M" and j: "j < n" and z: "r \<le> z" "z < n"
    and zero: "\<And>k. k < n \<Longrightarrow> M ! z ! k = 0"
  shows "\<exists>M' r' z'. rank_column n j (M, r) = (M', r') \<and> dims n n M' \<and>
           r' \<le> z' \<and> z' < n \<and> (\<forall>k<n. M' ! z' ! k = 0)"
proof -
  let ?p = "find_pivot_rank n j M r"
  have rn: "r \<le> n" "r < n" using z by simp_all
  note fp = find_pivot_rank_props [OF rn(1), of j M]
  show ?thesis
  proof (cases "?p < n")
    case False
    then have "rank_column n j (M, r) = (M, r)"
      by (simp add: rank_column_def Let_def)
    with d z zero show ?thesis by blast
  next
    case True
    then have pz: "M ! ?p ! j \<noteq> 0" using fp by simp
    have "?p \<noteq> z"
      using pz zero [OF j] by auto
    have rp: "r \<le> ?p" using fp by simp
    have lM: "length M = n" using d by (simp add: dims_def)
    define m1 where "m1 = (if ?p \<noteq> r then swap_rows r ?p M else M)"
    define z' where "z' = (if z = r then ?p else z)"
    have d1: "dims n n m1"
      using dims_swap [OF rn(2) True d] d by (simp add: m1_def)
    have z'r: "r < z'" "z' < n"
      using z True rp \<open>?p \<noteq> z\<close> by (auto simp: z'_def)
    have row: "m1 ! z' = M ! z"
    proof (cases "?p = r")
      case True
      with \<open>?p \<noteq> z\<close> show ?thesis by (simp add: m1_def z'_def)
    next
      case False
      note sw = swap_rows_props [of r M ?p]
      show ?thesis
      proof (cases "z = r")
        case zr: True
        then show ?thesis
          using False sw(3) rn(2) \<open>?p < n\<close> lM by (simp add: m1_def z'_def)
      next
        case zr: False
        then show ?thesis
          using False sw(4) [of z] rn(2) \<open>?p < n\<close> \<open>?p \<noteq> z\<close> lM by (simp add: m1_def z'_def)
      qed
    qed
    let ?m2 = "rank_elim_below n j r m1"
    note pe = rank_elim_below_props [OF d1 rn(2), where j = j]
    have "?m2 ! z' ! k = 0" if "k < n" for k
      using pe(3) [OF z'r that] zero [OF that] zero [OF j] by (simp add: row)
    moreover have "rank_column n j (M, r) = (?m2, r + 1)"
      using True by (simp add: rank_column_def Let_def m1_def)
    ultimately show ?thesis
      using pe(1) z'r by (intro exI [of _ ?m2] exI [of _ "r + 1"] exI [of _ z']) simp
  qed
qed

lemma fold_rank_column_zero_row:
  assumes "\<And>j. j \<in> set js \<Longrightarrow> j < n"
    and "dims n n M" "r \<le> z" "z < n" "\<And>k. k < n \<Longrightarrow> M ! z ! k = 0"
  shows "snd (fold (rank_column n) js (M, r)) < n"
  using assms
proof (induction js arbitrary: M r z)
  case Nil
  then show ?case by simp
next
  case (Cons j js)
  have j: "j < n" using Cons.prems(1) by simp
  obtain M' r' z' where s: "rank_column n j (M, r) = (M', r')" and d': "dims n n M'"
    and z': "r' \<le> z'" "z' < n" and zero': "\<And>k. k < n \<Longrightarrow> M' ! z' ! k = 0"
    using rank_column_zero_row [OF Cons.prems(2) j Cons.prems(3,4,5)] by blast
  have "snd (fold (rank_column n) js (M', r')) < n"
    using Cons.prems(1) d' z' zero' by (intro Cons.IH [of M' r' z']) simp_all
  then show ?case by (simp add: s)
qed

lemma CalculateRank_zero_row:
  assumes "dims (unat (m_generationSize d)) (unat (m_generationSize d)) (m_coefficients d)"
    and "z < unat (m_generationSize d)"
    and "\<And>k. k < unat (m_generationSize d) \<Longrightarrow> m_coefficients d ! z ! k = 0"
  shows "CalculateRank d < unat (m_generationSize d)"
  unfolding CalculateRank_def Let_def
  using assms by (intro fold_rank_column_zero_row [where z = z]) simp_all

text \<open>Back substitution: a kernel vector when a column has no pivot.\<close>

lemma backsub_step:
  assumes d: "dims n n M" and j: "j < n"
    and diag: "\<And>k. k < j \<Longrightarrow> M ! k ! k \<noteq> 0"
    and low: "\<And>k i. k < j \<Longrightarrow> k < i \<Longrightarrow> i < n \<Longrightarrow> M ! i ! k = 0"
    and colz: "\<And>i. j \<le> i \<Longrightarrow> i < n \<Longrightarrow> M ! i ! j = 0"
  shows "e \<le> j \<Longrightarrow>
         \<exists>x. length x = n \<and> x ! j = 1 \<and> (\<forall>r. j - e \<le> r \<and> r < n \<longrightarrow> dot n (M ! r) x = 0)"
proof (induction e)
  case 0
  let ?x = "(replicate n (0::uint8))[j := 1]"
  have "dot n (M ! r) ?x = 0" if r: "j \<le> r" "r < n" for r
  proof -
    have "gsum n (\<lambda>k. Multiply (M ! r ! k) (?x ! k)) = Multiply (M ! r ! j) (?x ! j)"
      using j by (intro gsum_single) (simp_all add: Multiply_zero_right)
    then show ?thesis
      using j colz [OF r] by (simp add: dot_def Multiply_zero_left)
  qed
  then show ?case
    using j by (intro exI [of _ ?x]) simp
next
  case (Suc e)
  then obtain x where lx: "length x = n" and xj: "x ! j = 1"
    and kx: "\<And>r. j - e \<le> r \<Longrightarrow> r < n \<Longrightarrow> dot n (M ! r) x = 0"
    by auto
  define m where "m = j - Suc e"
  have mj: "m < j" and mn: "m < n" and je: "j - e = Suc m"
    using Suc.prems j by (simp_all add: m_def)
  define s where "s = dot n (M ! m) x"
  define t where "t = Divide s (M ! m ! m)"
  let ?x = "x[m := Add (x ! m) t]"
  have upd: "dot n (M ! r) ?x = Add (dot n (M ! r) x) (Multiply (M ! r ! m) t)" for r
    using mn lx by (rule dot_update)
  have "dot n (M ! r) ?x = 0" if r: "m \<le> r" "r < n" for r
  proof (cases "r = m")
    case True
    have "Multiply (M ! m ! m) t = s"
      using diag [OF mj] by (simp add: t_def Multiply_commute [of "M ! m ! m"] Multiply_Divide)
    then show ?thesis
      by (simp add: upd True s_def [symmetric] Add_self)
  next
    case False
    with r have "Suc m \<le> r" by simp
    then have "dot n (M ! r) x = 0"
      using kx [of r] r je by simp
    moreover have "M ! r ! m = 0"
      using low [OF mj _ r(2)] False r by simp
    ultimately show ?thesis
      by (simp add: upd Multiply_zero_left Add_zero_left)
  qed
  moreover have "?x ! j = 1"
    using xj mj by simp
  ultimately show ?case
    using lx by (intro exI [of _ ?x]) (simp add: m_def)
qed

lemma no_pivot_kernel:
  assumes d: "dims n n M" and j: "j < n"
    and diag: "\<And>k. k < j \<Longrightarrow> M ! k ! k \<noteq> 0"
    and low: "\<And>k i. k < j \<Longrightarrow> k < i \<Longrightarrow> i < n \<Longrightarrow> M ! i ! k = 0"
    and colz: "\<And>i. j \<le> i \<Longrightarrow> i < n \<Longrightarrow> M ! i ! j = 0"
  shows "\<not> inj_mat n M"
proof
  assume inj: "inj_mat n M"
  obtain x where lx: "length x = n" and xj: "x ! j = 1"
    and kx: "\<And>r. j - j \<le> r \<and> r < n \<Longrightarrow> dot n (M ! r) x = 0"
    using backsub_step [OF d j diag low colz order_refl] by blast
  then have "ker n M x"
    by (simp add: ker_def)
  with inj lx j have "x ! j = 0"
    by (simp add: inj_mat_def)
  with xj show False by simp
qed

text \<open>On a matrix with trivial kernel every column has a pivot.\<close>

lemma rank_column_full:
  assumes inv: "rk_inv n j M" and j: "j < n"
  shows "\<exists>M'. rank_column n j (M, j) = (M', Suc j) \<and> rk_inv n (Suc j) M'"
proof -
  from inv have d: "dims n n M" and inj: "inj_mat n M"
    and diag: "\<And>k. k < j \<Longrightarrow> M ! k ! k \<noteq> 0"
    and low: "\<And>k i. k < j \<Longrightarrow> k < i \<Longrightarrow> i < n \<Longrightarrow> M ! i ! k = 0"
    by (auto simp: rk_inv_def)
  have lM: "length M = n" using d by (simp add: dims_def)
  define p where "p = find_pivot_rank n j M j"
  have jn: "j \<le> n" using j by simp
  note fp = find_pivot_rank_props [OF jn, of j M, folded p_def]
  have pn: "p < n"
  proof (rule ccontr)
    assume "\<not> p < n"
    then have colz: "\<And>i. j \<le> i \<Longrightarrow> i < n \<Longrightarrow> M ! i ! j = 0"
      using fp by simp
    have "\<not> inj_mat n M"
      by (rule no_pivot_kernel [OF d j diag low colz])
    with inj show False by simp
  qed
  have jp: "j \<le> p" and pz: "M ! p ! j \<noteq> 0"
    using fp pn by simp_all
  define m1 where "m1 = (if p \<noteq> j then swap_rows j p M else M)"
  have row: "m1 ! i = M ! (if i = j then p else if i = p then j else i)" if "i < n" for i
    using that j pn lM by (auto simp: m1_def swap_rows_def nth_list_update)
  have d1: "dims n n m1"
    using dims_swap [OF j pn d] d by (simp add: m1_def)
  have inj1: "inj_mat n m1"
    using inj ker_swap [OF j pn lM] by (simp add: m1_def inj_mat_def)
  have piv: "m1 ! j ! j \<noteq> 0"
    using pz by (simp add: row [OF j])
  have diag1: "m1 ! k ! k \<noteq> 0" if "k < j" for k
  proof -
    have "m1 ! k = M ! k"
      using that j jp by (simp add: row)
    with diag [OF that] show ?thesis by simp
  qed
  have low1: "m1 ! i ! k = 0" if "k < j" "k < i" "i < n" for k i
  proof -
    let ?i' = "if i = j then p else if i = p then j else i"
    have "k < ?i'" "?i' < n"
      using that j pn jp by auto
    then have "M ! ?i' ! k = 0"
      using low [OF that(1)] by blast
    then show ?thesis
      by (simp add: row [OF that(3)])
  qed
  define m2 where "m2 = rank_elim_below n j j m1"
  note pe = rank_elim_below_props [OF d1 j, where j = j, folded m2_def]
  have rc: "rank_column n j (M, j) = (m2, Suc j)"
    using pn by (simp add: rank_column_def Let_def p_def [symmetric] m1_def m2_def)
  have inj2: "inj_mat n m2"
  proof -
    have "\<And>k. k < j \<Longrightarrow> m1 ! j ! k = 0"
      using low1 j by simp
    then have "\<And>x. ker n m2 x \<longleftrightarrow> ker n m1 x"
      by (rule pe(4))
    with inj1 show ?thesis by (simp add: inj_mat_def)
  qed
  have keep: "m2 ! q = m1 ! q" if "q \<le> j" for q
    using that by (rule pe(2))
  have diag2: "m2 ! k ! k \<noteq> 0" if "k < Suc j" for k
  proof (cases "k = j")
    case True
    with piv show ?thesis by (simp add: keep)
  next
    case False
    with that have "k < j" by simp
    with diag1 [OF this] show ?thesis by (simp add: keep)
  qed
  have low2: "m2 ! i ! k = 0" if "k < Suc j" "k < i" "i < n" for k i
  proof (cases "i \<le> j")
    case True
    with that have "k < j" by simp
    with low1 [OF this that(2,3)] True show ?thesis by (simp add: keep)
  next
    case False
    then have ji: "j < i" by simp
    have kn: "k < n" using that by simp
    note e = pe(3) [OF ji that(3) kn]
    show ?thesis
    proof (cases "k = j")
      case True
      show ?thesis
      proof (cases "m1 ! i ! j = 0")
        case z: True
        with e True show ?thesis by simp
      next
        case z: False
        have "Multiply (Divide (m1 ! i ! j) (m1 ! j ! j)) (m1 ! j ! j) = m1 ! i ! j"
          using piv by (rule Multiply_Divide)
        with e True z show ?thesis
          by (simp add: Subtract_eq_Add Add_self)
      qed
    next
      case False
      with that have kj: "k < j" by simp
      then have "m1 ! i ! k = 0"
        using low1 [OF kj that(2,3)] by simp
      with e kj show ?thesis by simp
    qed
  qed
  have "rk_inv n (Suc j) m2"
    using pe(1) inj2 diag2 low2 by (simp add: rk_inv_def)
  with rc show ?thesis by blast
qed

lemma fold_rank_column_full:
  assumes "rk_inv n 0 M" "m \<le> n"
  shows "\<exists>M'. fold (rank_column n) [0..<m] (M, 0) = (M', m) \<and> rk_inv n m M'"
  using assms(2)
proof (induction m)
  case 0
  then show ?case using assms(1) by simp
next
  case (Suc m)
  then obtain M1 where f: "fold (rank_column n) [0..<m] (M, 0) = (M1, m)"
    and inv1: "rk_inv n m M1"
    by auto
  have "m < n" using Suc.prems by simp
  from rank_column_full [OF inv1 this] f show ?case
    by simp
qed

lemma CalculateRank_full:
  assumes "dims (unat (m_generationSize d)) (unat (m_generationSize d)) (m_coefficients d)"
    and "inj_mat (unat (m_generationSize d)) (m_coefficients d)"
  shows "CalculateRank d = unat (m_generationSize d)"
proof -
  let ?n = "unat (m_generationSize d)"
  have "rk_inv ?n 0 (m_coefficients d)"
    using assms by (simp add: rk_inv_def)
  then obtain M' where "fold (rank_column ?n) [0..<?n] (m_coefficients d, 0) = (M', ?n)"
    using fold_rank_column_full [of ?n "m_coefficients d" ?n] by auto
  then show ?thesis
    by (simp add: CalculateRank_def Let_def)
qed

section \<open>What the encoder emits\<close>

lemma draw_fold:
  "length cs = n \<Longrightarrow> idx + length ps \<le> n \<Longrightarrow>
   fold (draw_step n rnd) ps (cs, idx) =
   (map (\<lambda>k. if idx \<le> k \<and> k < idx + length ps then rnd k else cs ! k) [0..<n],
    idx + length ps)"
proof (induction ps arbitrary: cs idx)
  case Nil
  then show ?case by (auto intro!: nth_equalityI)
next
  case (Cons a ps)
  then have idx: "idx < n" by simp
  have "map (\<lambda>k. if Suc idx \<le> k \<and> k < Suc idx + length ps then rnd k
                   else cs[idx := rnd idx] ! k) [0..<n] =
        map (\<lambda>k. if idx \<le> k \<and> k < idx + length (a # ps) then rnd k else cs ! k) [0..<n]"
    using Cons.prems by (intro nth_equalityI) (auto simp: nth_list_update)
  then show ?case
    using Cons.IH [of "cs[idx := rnd idx]" "Suc idx"] Cons.prems idx
    by (simp add: draw_step_def)
qed

lemma draw_coefficients_full:
  "length packets = n \<Longrightarrow> draw_coefficients n rnd packets = map rnd [0..<n]"
  unfolding draw_coefficients_def
  by (subst draw_fold) (auto intro!: nth_equalityI)

lemma accumulate_loop:
  "length cp = p \<Longrightarrow> m \<le> p \<Longrightarrow>
   fold (\<lambda>i cp. cp[i := Add (cp ! i) (Multiply c (d ! i))]) [0..<m] cp =
   map (\<lambda>i. if i < m then Add (cp ! i) (Multiply c (d ! i)) else cp ! i) [0..<p]"
proof (induction m)
  case 0
  then show ?case by (auto intro!: nth_equalityI)
next
  case (Suc m)
  then have IH: "fold (\<lambda>i cp. cp[i := Add (cp ! i) (Multiply c (d ! i))]) [0..<m] cp =
      map (\<lambda>i. if i < m then Add (cp ! i) (Multiply c (d ! i)) else cp ! i) [0..<p]"
    by simp
  show ?case
    using Suc.prems by (simp add: IH) (auto intro!: nth_equalityI simp: nth_list_update less_Suc_eq)
qed

lemma accumulate_eq:
  "length cp = p \<Longrightarrow>
   accumulate p c d cp = map (\<lambda>i. Add (cp ! i) (Multiply c (d ! i))) [0..<p]"
  unfolding accumulate_def using accumulate_loop [of cp p p c d] by (simp cong: map_cong)

lemma copy_data_id: "length pkt = p \<Longrightarrow> copy_data p pkt = pkt"
  by (simp add: copy_data_eq)

lemma code_payload_loop:
  assumes "\<And>x. x \<in> set ps \<Longrightarrow> length (snd x) = p" "length ps \<le> n"
  shows "fold (code_step n p cs) ps (replicate p 0, 0) =
         (map (\<lambda>b. gsum (length ps) (\<lambda>k. Multiply (cs ! k) (snd (ps ! k) ! b))) [0..<p],
          length ps)"
  using assms
proof (induction ps rule: rev_induct)
  case Nil
  then show ?case by (auto intro!: nth_equalityI)
next
  case (snoc x ps)
  let ?old = "map (\<lambda>b. gsum (length ps) (\<lambda>k. Multiply (cs ! k) (snd (ps ! k) ! b))) [0..<p]"
  have IH: "fold (code_step n p cs) ps (replicate p 0, 0) = (?old, length ps)"
    using snoc by simp
  have lx: "length (snd x) = p" using snoc.prems(1) by simp
  have ln: "length ps < n" using snoc.prems(2) by simp
  have g: "gsum (length ps) (\<lambda>k. Multiply (cs ! k) (snd ((ps @ [x]) ! k) ! b)) =
      gsum (length ps) (\<lambda>k. Multiply (cs ! k) (snd (ps ! k) ! b))" for b
    by (rule gsum_cong) (simp add: nth_append)
  have new: "(if cs ! length ps \<noteq> 0
              then accumulate p (cs ! length ps) (copy_data p (snd x)) ?old else ?old) =
      map (\<lambda>b. gsum (length (ps @ [x])) (\<lambda>k. Multiply (cs ! k) (snd ((ps @ [x]) ! k) ! b)))
        [0..<p]"
  proof (cases "cs ! length ps = 0")
    case True
    then show ?thesis
      by (simp add: g Multiply_zero_left Add_zero_right)
  next
    case False
    then show ?thesis
      by (simp add: accumulate_eq copy_data_id [OF lx] g)
  qed
  have "fold (code_step n p cs) (ps @ [x]) (replicate p 0, 0) =
      code_step n p cs x (?old, length ps)"
    by (simp add: IH)
  also have "\<dots> = (if cs ! length ps \<noteq> 0
              then accumulate p (cs ! length ps) (copy_data p (snd x)) ?old else ?old,
              length (ps @ [x]))"
    using ln by (simp add: code_step_def)
  finally show ?case
    by (simp only: new)
qed

lemma code_payload_eq:
  assumes "\<And>x. x \<in> set ps \<Longrightarrow> length (snd x) = p" "length ps = n"
  shows "code_payload n p cs ps =
         map (\<lambda>b. gsum n (\<lambda>k. Multiply (cs ! k) (snd (ps ! k) ! b))) [0..<p]"
  unfolding code_payload_def
  using code_payload_loop [OF assms(1), where n = n and cs = cs] assms(2) by simp

text \<open>The coded payload under the draws \<open>rnd\<close>, for the source payloads \<open>S\<close>.\<close>

lemma GenerateCodedPacket_eq:
  assumes "e_generationPackets e \<noteq> []"
    and "length (e_generationPackets e) = unat (e_generationSize e)"
    and "\<And>x. x \<in> set (e_generationPackets e) \<Longrightarrow> length (snd x) = unat (e_packetSize e)"
  shows "GenerateCodedPacket e rnd =
     (Some (AddHeader
        \<lparr>h_generationId = e_currentGeneration e, h_generationSize = e_generationSize e,
         h_coefficients = map rnd [0..<unat (e_generationSize e)]\<rparr>
        (map (\<lambda>b. gsum (unat (e_generationSize e))
                    (\<lambda>k. Multiply (rnd k) (snd (e_generationPackets e ! k) ! b)))
           [0..<unat (e_packetSize e)])), e)"
proof -
  let ?n = "unat (e_generationSize e)" and ?p = "unat (e_packetSize e)"
  have c: "draw_coefficients ?n rnd (e_generationPackets e) = map rnd [0..<?n]"
    using assms(2) by (rule draw_coefficients_full)
  have "code_payload ?n ?p (map rnd [0..<?n]) (e_generationPackets e) =
      map (\<lambda>b. gsum ?n (\<lambda>k. Multiply (map rnd [0..<?n] ! k) (snd (e_generationPackets e ! k) ! b)))
        [0..<?p]"
    using assms(3,2) by (rule code_payload_eq)
  also have "\<dots> = map (\<lambda>b. gsum ?n (\<lambda>k. Multiply (rnd k) (snd (e_generationPackets e ! k) ! b)))
        [0..<?p]"
    by (intro map_cong refl gsum_cong) simp
  finally show ?thesis
    using assms(1) by (simp add: GenerateCodedPacket_def Let_def c new_header_def)
qed

lemma generate_many_aux:
  "fold (\<lambda>rnd (out, e'). case GenerateCodedPacket e' rnd of (pkt, e'') \<Rightarrow> (out @ [pkt], e''))
     rnds (acc, e) =
   (acc @ map (\<lambda>rnd. fst (GenerateCodedPacket e rnd)) rnds, e)"
proof (induction rnds arbitrary: acc)
  case Nil
  then show ?case by simp
next
  case (Cons rnd rnds)
  obtain pkt where g: "GenerateCodedPacket e rnd = (pkt, e)"
    using GenerateCodedPacket_frame [of e rnd] by (cases "GenerateCodedPacket e rnd") auto
  show ?case
    by (simp add: g Cons.IH)
qed

lemma generate_many_eq:
  "generate_many e rnds = (map (\<lambda>rnd. fst (GenerateCodedPacket e rnd)) rnds, e)"
  using generate_many_aux [of rnds "[]" e] by (simp add: generate_many_def)

section \<open>Feeding a generation to a fresh decoder\<close>

lemma take_update_replicate:
  "k < length A \<Longrightarrow> k < n \<Longrightarrow>
   (take k A @ replicate (n - k) z)[k := A ! k] = take (Suc k) A @ replicate (n - Suc k) z"
proof -
  assume k: "k < length A" "k < n"
  then have "n - k = Suc (n - Suc k)" by simp
  then have "(take k A @ replicate (n - k) z)[k := A ! k] =
      take k A @ (A ! k # replicate (n - Suc k) z)"
    using k by (simp add: list_update_append)
  also have "\<dots> = take (Suc k) A @ replicate (n - Suc k) z"
    using k by (simp add: take_Suc_conv_app_nth)
  finally show ?thesis .
qed

lemma partial_rows:
  assumes "length A = n" "k \<le> n"
  shows "i < k \<Longrightarrow> (take k A @ replicate (n - k) z) ! i = A ! i"
    and "k \<le> i \<Longrightarrow> i < n \<Longrightarrow> (take k A @ replicate (n - k) z) ! i = z"
    and "length (take k A @ replicate (n - k) z) = n"
  using assms by (simp_all add: nth_append)

lemma dims_partial:
  assumes "dims n p A" "k \<le> n"
  shows "dims n p (take k A @ replicate (n - k) (replicate p 0))"
  unfolding dims_def
proof (intro conjI allI impI)
  have lA: "length A = n" using assms(1) by (simp add: dims_def)
  show "length (take k A @ replicate (n - k) (replicate p 0)) = n"
    by (rule partial_rows(3) [OF lA assms(2)])
  fix i assume i: "i < n"
  show "length ((take k A @ replicate (n - k) (replicate p 0)) ! i) = p"
  proof (cases "i < k")
    case True
    then show ?thesis
      using partial_rows(1) [OF lA assms(2) True] assms(1) i by (simp add: dims_def)
  next
    case False
    then show ?thesis
      using partial_rows(2) [OF lA assms(2) _ i, of "replicate p 0"] by simp
  qed
qed

lemma partial_decoder_fields:
  "m_generationSize (partial_decoder gs ps A Y k) = gs"
  "m_packetSize (partial_decoder gs ps A Y k) = ps"
  "m_currentGeneration (partial_decoder gs ps A Y k) = 0"
  "m_decoded (partial_decoder gs ps A Y k) = False"
  "m_coefficients (partial_decoder gs ps A Y k) =
     take k A @ replicate (unat gs - k) (replicate (unat gs) 0)"
  "m_codedPayloads (partial_decoder gs ps A Y k) =
     take k Y @ replicate (unat gs - k) (replicate (unat ps) 0)"
  by (simp_all add: partial_decoder_def new_decoder_def)

lemma partial_decoder_0: "partial_decoder gs ps A Y 0 = new_decoder gs ps"
  by (simp add: partial_decoder_def new_decoder_def)

text \<open>As long as a row is missing, the rank is short of the generation size.\<close>

lemma partial_decoder_cannot_decode:
  assumes "dims (unat gs) (unat gs) A" "k < unat gs"
  shows "\<not> fst (CanDecode (partial_decoder gs ps A Y k))"
proof -
  let ?n = "unat gs"
  let ?d = "partial_decoder gs ps A Y k"
  have kn: "k \<le> ?n" using assms(2) by simp
  have lA: "length A = ?n" using assms(1) by (simp add: dims_def)
  have d: "dims (unat (m_generationSize ?d)) (unat (m_generationSize ?d)) (m_coefficients ?d)"
    using dims_partial [OF assms(1) kn] by (simp add: partial_decoder_fields)
  have z: "m_coefficients ?d ! k ! j = 0" if "j < unat (m_generationSize ?d)" for j
    using that partial_rows(2) [OF lA kn order_refl assms(2), of "replicate ?n 0"]
    by (simp add: partial_decoder_fields)
  have zk: "k < unat (m_generationSize ?d)"
    using assms(2) by (simp add: partial_decoder_fields)
  have "CalculateRank ?d < unat (m_generationSize ?d)"
    by (rule CalculateRank_zero_row [OF d zk z])
  then show ?thesis
    by (simp add: CanDecode_fst)
qed

text \<open>A matrix with trivial kernel has no all-zero row.\<close>

lemma inj_mat_row_nonzero:
  assumes d: "dims n n A" and inj: "inj_mat n A" and i: "i < n"
  shows "\<exists>j<n. A ! i ! j \<noteq> 0"
proof (rule ccontr)
  assume "\<not> (\<exists>j<n. A ! i ! j \<noteq> 0)"
  then have z: "\<And>k. k < n \<Longrightarrow> A ! i ! k = 0" by simp
  have js: "\<And>j. j \<in> set [0..<n] \<Longrightarrow> j < n"
    by simp
  have "snd (fold (rank_column n) [0..<n] (A, 0)) < n"
    by (rule fold_rank_column_zero_row [OF js d le0 i z])
  moreover have "rk_inv n 0 A"
    using d inj by (simp add: rk_inv_def)
  then obtain M' where "fold (rank_column n) [0..<n] (A, 0) = (M', n)"
    using fold_rank_column_full [of n A n] by auto
  ultimately show False by simp
qed

text \<open>Storing packet \<open>k\<close> of the generation.\<close>

lemma ProcessCodedPacket_partial:
  assumes gs: "gs \<noteq> 0" "gs \<le> 255"
    and dA: "dims (unat gs) (unat gs) A" and dY: "dims (unat gs) (unat ps) Y"
    and inj: "inj_mat (unat gs) A" and k: "k < unat gs"
  shows "ProcessCodedPacket (partial_decoder gs ps A Y k) (coded_packet gs (A ! k) (Y ! k)) =
     (True,
      if fst (CanDecode (partial_decoder gs ps A Y (Suc k)))
      then DecodeGeneration (partial_decoder gs ps A Y (Suc k))
      else partial_decoder gs ps A Y (Suc k))"
proof -
  let ?n = "unat gs" and ?p = "unat ps"
  let ?d = "partial_decoder gs ps A Y k"
  let ?h = "\<lparr>h_generationId = 0, h_generationSize = gs, h_coefficients = A ! k\<rparr>"
  have lA: "length A = ?n" and lY: "length Y = ?n"
    and rA: "length (A ! k) = ?n" and rY: "length (Y ! k) = ?p"
    using dA dY k by (simp_all add: dims_def)
  have kn: "k \<le> ?n" using k by simp
  have rh: "RemoveHeader new_header (AddHeader ?h (Y ! k)) = (8 + unat (h_generationSize ?h), ?h, Y ! k)"
    using gs rA by (intro RemoveHeader_AddHeader) simp_all
  have hs: "8 + unat (h_generationSize ?h) \<noteq> 0" by simp
  have ne: "h_coefficients ?h \<noteq> []"
    using rA k by auto
  have nd: "\<not> m_decoded ?d" and gen: "h_generationId ?h = m_currentGeneration ?d"
    by (simp_all add: partial_decoder_fields)
  have f: "find_empty_row (unat (m_generationSize ?d)) (m_coefficients ?d) = Some k"
    unfolding find_empty_row_Some partial_decoder_fields
  proof (intro conjI allI impI)
    show "k < ?n" by (rule k)
    fix j assume "j < ?n"
    then show "(take k A @ replicate (?n - k) (replicate ?n 0)) ! k ! j = 0"
      using partial_rows(2) [OF lA kn order_refl k, of "replicate ?n 0"] by simp
  next
    fix i assume i: "i < k"
    then have "i < ?n" using k by simp
    then have "\<exists>j<?n. A ! i ! j \<noteq> 0"
      by (rule inj_mat_row_nonzero [OF dA inj])
    then show "\<exists>j<?n. (take k A @ replicate (?n - k) (replicate ?n 0)) ! i ! j \<noteq> 0"
      using partial_rows(1) [OF lA kn i, of "replicate ?n 0"] by simp
  qed
  have st: "?d\<lparr>m_coefficients := (m_coefficients ?d)
                 [k := take (unat (m_generationSize ?d)) (h_coefficients ?h) @
                       replicate (unat (m_generationSize ?d) - length (h_coefficients ?h)) 0],
               m_codedPayloads := (m_codedPayloads ?d)
                 [k := copy_data (unat (m_packetSize ?d)) (Y ! k)]\<rparr> =
      partial_decoder gs ps A Y (Suc k)"
    using k lA lY rA rY
    by (simp add: partial_decoder_def new_decoder_def take_update_replicate copy_data_eq)
  show ?thesis
    unfolding coded_packet_def ProcessCodedPacket_parsed [OF rh hs ne nd gen]
    by (simp only: f option.case Let_def st)
qed

lemma rows_equal:
  assumes "dims n p Y" "dims n p S" "\<And>r b. r < n \<Longrightarrow> b < p \<Longrightarrow> Y ! r ! b = S ! r ! b"
  shows "map (\<lambda>i. take p (Y ! i)) [0..<n] = S"
proof (rule nth_equalityI)
  show "length (map (\<lambda>i. take p (Y ! i)) [0..<n]) = length S"
    using assms(2) by (simp add: dims_def)
  fix i assume "i < length (map (\<lambda>i. take p (Y ! i)) [0..<n])"
  then have i: "i < n" by simp
  have ly: "length (Y ! i) = p" and ls: "length (S ! i) = p"
    using assms(1,2) i by (simp_all add: dims_def)
  have "Y ! i = S ! i"
    using ly ls assms(3) [OF i] by (intro nth_equalityI) simp_all
  then show "map (\<lambda>i. take p (Y ! i)) [0..<n] ! i = S ! i"
    using i ls by simp
qed

text \<open>With all rows stored, the decoder decodes and recovers the source payloads.\<close>

lemma decode_full:
  assumes dA: "dims (unat gs) (unat gs) A" and dY: "dims (unat gs) (unat ps) Y"
    and dS: "dims (unat gs) (unat ps) S"
    and inj: "inj_mat (unat gs) A" and s: "sol (unat gs) (unat ps) A Y S"
  shows "fst (CanDecode (partial_decoder gs ps A Y (unat gs)))"
    and "DecodeGeneration (partial_decoder gs ps A Y (unat gs)) =
         (partial_decoder gs ps A Y (unat gs))\<lparr>m_decodedPackets := S, m_decoded := True\<rparr>"
proof -
  let ?n = "unat gs" and ?p = "unat ps"
  let ?d = "partial_decoder gs ps A Y ?n"
  have lA: "length A = ?n" and lY: "length Y = ?n"
    using dA dY by (simp_all add: dims_def)
  have mc: "m_coefficients ?d = A" and mp: "m_codedPayloads ?d = Y"
    using lA lY by (simp_all add: partial_decoder_fields)
  have "CalculateRank ?d = unat (m_generationSize ?d)"
    using dA inj by (intro CalculateRank_full) (simp_all add: mc partial_decoder_fields(1))
  then show cd: "fst (CanDecode ?d)"
    by (simp add: CanDecode_fst)
  have "gj_inv ?n ?p 0 A Y S"
    using dA dY inj s by (simp add: gj_inv_def unit_cols_def)
  then obtain C' Y' where g: "gauss_jordan ?n ?p A Y = Some (C', Y')"
    and dY': "dims ?n ?p Y'" and eq: "\<And>r b. r < ?n \<Longrightarrow> b < ?p \<Longrightarrow> Y' ! r ! b = S ! r ! b"
    using gauss_jordan_solves [of ?n ?p A Y S] by blast
  have "map (\<lambda>i. take ?p (Y' ! i)) [0..<?n] = S"
    using dY' dS eq by (rule rows_equal)
  then have "decode_elimination ?d = ?d\<lparr>m_decodedPackets := S, m_decoded := True\<rparr>"
    by (simp add: decode_elimination_def Let_def partial_decoder_fields(1,2) mc mp g)
  then show "DecodeGeneration ?d = ?d\<lparr>m_decodedPackets := S, m_decoded := True\<rparr>"
    using cd by (simp add: DecodeGeneration_def partial_decoder_fields(4))
qed

lemma feed_snoc:
  "feed d (pkts @ [x]) =
     (case feed d pkts of (rs, d') \<Rightarrow>
        case ProcessCodedPacket d' x of (r, d'') \<Rightarrow> (rs @ [r], d''))"
  by (simp add: feed_def)

lemma feed_prefix:
  assumes gs: "gs \<noteq> 0" "gs \<le> 255"
    and dA: "dims (unat gs) (unat gs) A" and dY: "dims (unat gs) (unat ps) Y"
    and inj: "inj_mat (unat gs) A"
  shows "k < unat gs \<Longrightarrow>
         feed (new_decoder gs ps) (map (\<lambda>i. coded_packet gs (A ! i) (Y ! i)) [0..<k]) =
         (replicate k True, partial_decoder gs ps A Y k)"
proof (induction k)
  case 0
  show ?case by (simp add: feed_def partial_decoder_0)
next
  case (Suc k)
  then have k: "k < unat gs" by simp
  have IH: "feed (new_decoder gs ps) (map (\<lambda>i. coded_packet gs (A ! i) (Y ! i)) [0..<k]) =
      (replicate k True, partial_decoder gs ps A Y k)"
    using Suc.IH k by simp
  have "\<not> fst (CanDecode (partial_decoder gs ps A Y (Suc k)))"
    using dA Suc.prems by (rule partial_decoder_cannot_decode)
  then have step: "ProcessCodedPacket (partial_decoder gs ps A Y k)
      (coded_packet gs (A ! k) (Y ! k)) = (True, partial_decoder gs ps A Y (Suc k))"
    using ProcessCodedPacket_partial [OF gs dA dY inj k] by simp
  show ?case
    by (simp add: feed_snoc IH step replicate_append_same)
qed

lemma feed_generation:
  assumes gs: "gs \<noteq> 0" "gs \<le> 255"
    and dA: "dims (unat gs) (unat gs) A" and dY: "dims (unat gs) (unat ps) Y"
    and dS: "dims (unat gs) (unat ps) S"
    and inj: "inj_mat (unat gs) A" and s: "sol (unat gs) (unat ps) A Y S"
  shows "feed (new_decoder gs ps) (map (\<lambda>i. coded_packet gs (A ! i) (Y ! i)) [0..<unat gs]) =
         (replicate (unat gs) True,
          (partial_decoder gs ps A Y (unat gs))\<lparr>m_decodedPackets := S, m_decoded := True\<rparr>)"
proof -
  let ?n = "unat gs"
  have "?n \<noteq> 0" using gs(1) by (simp add: unat_eq_0)
  then obtain m where n: "?n = Suc m" by (cases ?n) auto
  then have m: "m < ?n" by simp
  have pre: "feed (new_decoder gs ps) (map (\<lambda>i. coded_packet gs (A ! i) (Y ! i)) [0..<m]) =
      (replicate m True, partial_decoder gs ps A Y m)"
    using feed_prefix [OF gs dA dY inj m] .
  note df = decode_full [OF dA dY dS inj s]
  have step: "ProcessCodedPacket (partial_decoder gs ps A Y m)
      (coded_packet gs (A ! m) (Y ! m)) =
      (True, (partial_decoder gs ps A Y ?n)\<lparr>m_decodedPackets := S, m_decoded := True\<rparr>)"
    using ProcessCodedPacket_partial [OF gs dA dY inj m] df by (simp add: n)
  have "feed (new_decoder gs ps) (map (\<lambda>i. coded_packet gs (A ! i) (Y ! i)) [0..<Suc m]) =
      (replicate (Suc m) True,
       (partial_decoder gs ps A Y ?n)\<lparr>m_decodedPackets := S, m_decoded := True\<rparr>)"
    by (simp add: feed_snoc pre step replicate_append_same)
  then show ?thesis
    by (simp only: n)
qed

section \<open>The round trip from the encoder to the decoder\<close>

lemma generate_many_coded:
  assumes n0: "e_generationSize e \<noteq> 0"
    and gen: "e_currentGeneration e = 0"
    and full: "length (e_generationPackets e) = unat (e_generationSize e)"
    and size: "\<forall>x \<in> set (e_generationPackets e). length (snd x) = unat (e_packetSize e)"
    and draws: "length rnds = unat (e_generationSize e)"
  shows "fst (generate_many e rnds) =
     map (\<lambda>i. coded_packet (e_generationSize e)
            (map (\<lambda>rnd. map rnd [0..<unat (e_generationSize e)]) rnds ! i)
            (map (\<lambda>rnd. map (\<lambda>b. gsum (unat (e_generationSize e))
                     (\<lambda>k. Multiply (rnd k) (map snd (e_generationPackets e) ! k ! b)))
                   [0..<unat (e_packetSize e)]) rnds ! i))
       [0..<unat (e_generationSize e)]"
proof (rule nth_equalityI)
  let ?n = "unat (e_generationSize e)" and ?p = "unat (e_packetSize e)"
  show "length (fst (generate_many e rnds)) =
      length (map (\<lambda>i. coded_packet (e_generationSize e)
            (map (\<lambda>rnd. map rnd [0..<?n]) rnds ! i)
            (map (\<lambda>rnd. map (\<lambda>b. gsum ?n
                     (\<lambda>k. Multiply (rnd k) (map snd (e_generationPackets e) ! k ! b)))
                   [0..<?p]) rnds ! i)) [0..<?n])"
    using draws by (simp add: generate_many_eq)
  fix i assume "i < length (fst (generate_many e rnds))"
  then have i: "i < ?n" using draws by (simp add: generate_many_eq)
  have ne: "e_generationPackets e \<noteq> []"
    using n0 full by (auto simp add: unat_eq_0)
  have sz: "\<And>x. x \<in> set (e_generationPackets e) \<Longrightarrow> length (snd x) = ?p"
    using size by simp
  have g: "gsum ?n (\<lambda>k. Multiply ((rnds ! i) k) (snd (e_generationPackets e ! k) ! b)) =
      gsum ?n (\<lambda>k. Multiply ((rnds ! i) k) (map snd (e_generationPackets e) ! k ! b))" for b
    using full by (intro gsum_cong) simp
  show "fst (generate_many e rnds) ! i =
      map (\<lambda>i. coded_packet (e_generationSize e)
            (map (\<lambda>rnd. map rnd [0..<?n]) rnds ! i)
            (map (\<lambda>rnd. map (\<lambda>b. gsum ?n
                     (\<lambda>k. Multiply (rnd k) (map snd (e_generationPackets e) ! k ! b)))
                   [0..<?p]) rnds ! i)) [0..<?n] ! i"
    using i draws
    by (simp add: generate_many_eq GenerateCodedPacket_eq [OF ne full sz] coded_packet_def gen g)
qed

lemma coded_sol:
  assumes "length rnds = n" "length S = n"
  shows "sol n p (map (\<lambda>rnd. map rnd [0..<n]) rnds)
           (map (\<lambda>rnd. map (\<lambda>b. gsum n (\<lambda>k. Multiply (rnd k) (S ! k ! b))) [0..<p]) rnds) S"
  unfolding sol_def dot_def
proof (intro allI impI)
  fix i b assume i: "i < n" and b: "b < p"
  have "gsum n (\<lambda>k. Multiply (map (\<lambda>rnd. map rnd [0..<n]) rnds ! i ! k) (col n S b ! k)) =
      gsum n (\<lambda>k. Multiply ((rnds ! i) k) (S ! k ! b))"
    using i assms(1) by (intro gsum_cong) (simp add: col_nth)
  then show "gsum n (\<lambda>k. Multiply (map (\<lambda>rnd. map rnd [0..<n]) rnds ! i ! k) (col n S b ! k)) =
      map (\<lambda>rnd. map (\<lambda>b. gsum n (\<lambda>k. Multiply (rnd k) (S ! k ! b))) [0..<p]) rnds ! i ! b"
    using i b assms(1) by simp
qed

lemma encoder_decoder_state:
  assumes gs: "e_generationSize e \<noteq> 0" "e_generationSize e \<le> 255"
    and gen: "e_currentGeneration e = 0"
    and full: "length (e_generationPackets e) = unat (e_generationSize e)"
    and size: "\<forall>x \<in> set (e_generationPackets e). length (snd x) = unat (e_packetSize e)"
    and draws: "length rnds = unat (e_generationSize e)"
    and inv: "mat_mult (unat (e_generationSize e)) B
                (map (\<lambda>rnd. map rnd [0..<unat (e_generationSize e)]) rnds) =
              identity (unat (e_generationSize e))"
  shows "\<exists>d. feed (new_decoder (e_generationSize e) (e_packetSize e)) (fst (generate_many e rnds)) =
           (replicate (unat (e_generationSize e)) True, d) \<and>
           m_decoded d \<and> m_decodedPackets d = map snd (e_generationPackets e) \<and>
           m_generationSize d = e_generationSize e \<and>
           dims (unat (e_generationSize e)) (unat (e_generationSize e)) (m_coefficients d) \<and>
           inj_mat (unat (e_generationSize e)) (m_coefficients d)"
proof -
  let ?gs = "e_generationSize e" and ?ps = "e_packetSize e"
  let ?n = "unat ?gs" and ?p = "unat ?ps"
  let ?S = "map snd (e_generationPackets e)"
  let ?A = "map (\<lambda>rnd. map rnd [0..<?n]) rnds"
  let ?Y = "map (\<lambda>rnd. map (\<lambda>b. gsum ?n (\<lambda>k. Multiply (rnd k) (?S ! k ! b))) [0..<?p]) rnds"
  let ?d = "(partial_decoder ?gs ?ps ?A ?Y ?n)\<lparr>m_decodedPackets := ?S, m_decoded := True\<rparr>"
  have dA: "dims ?n ?n ?A" and dY: "dims ?n ?p ?Y"
    using draws by (simp_all add: dims_def)
  have dS: "dims ?n ?p ?S"
    using full size by (simp add: dims_def)
  have inj: "inj_mat ?n ?A"
    using inv by (rule left_inverse_inj)
  have s: "sol ?n ?p ?A ?Y ?S"
    using draws full by (intro coded_sol) simp_all
  have c: "fst (generate_many e rnds) = map (\<lambda>i. coded_packet ?gs (?A ! i) (?Y ! i)) [0..<?n]"
    using gs(1) gen full size draws by (rule generate_many_coded)
  have f: "feed (new_decoder ?gs ?ps) (fst (generate_many e rnds)) = (replicate ?n True, ?d)"
    unfolding c by (rule feed_generation [OF gs dA dY dS inj s])
  have lA: "length ?A = ?n" using draws by simp
  have mc: "m_coefficients ?d = ?A"
    using lA by (simp add: partial_decoder_fields(5))
  have "m_decoded ?d" "m_decodedPackets ?d = ?S" "m_generationSize ?d = ?gs"
    by (simp_all add: partial_decoder_fields(1))
  moreover have "dims ?n ?n (m_coefficients ?d)" "inj_mat ?n (m_coefficients ?d)"
    unfolding mc using dA inj by simp_all
  ultimately show ?thesis
    using f by blast
qed

text \<open>
  C1. Round trip. Let an encoder of generation 0 hold a full generation: \<open>N\<close> source packets
  (\<open>N\<close> its generation size, within the bounds \<open>1..255\<close> that the decoder's constructor
  asserts), each of exactly \<open>P\<close> bytes. Let \<open>N\<close> coded packets be generated from it, the
  coefficient vectors drawn forming a matrix with a left inverse \<open>B\<close> over the field. Feeding
  these packets, in order, to a fresh decoder of the same sizes stores every one of them
  (every call of \<open>ProcessCodedPacket\<close> returns true), after which \<open>CanDecode\<close> is true
  and \<open>GetDecodedPackets\<close> returns exactly \<open>N\<close> packets: the source payloads, in the order of
  the encoder's buffer, hence the same set of payloads.
\<close>

theorem round_trip:
  assumes "e_generationSize e \<noteq> 0" and "e_generationSize e \<le> 255"
    and "e_currentGeneration e = 0"
    and "length (e_generationPackets e) = unat (e_generationSize e)"
    and "\<forall>x \<in> set (e_generationPackets e). length (snd x) = unat (e_packetSize e)"
    and "length rnds = unat (e_generationSize e)"
    and "mat_mult (unat (e_generationSize e)) B
           (map (\<lambda>rnd. map rnd [0..<unat (e_generationSize e)]) rnds) =
         identity (unat (e_generationSize e))"
  shows "let fed = feed (new_decoder (e_generationSize e) (e_packetSize e))
                     (fst (generate_many e rnds));
             decoded = fst (GetDecodedPackets (snd fed))
         in fst fed = replicate (unat (e_generationSize e)) True \<and>
            fst (CanDecode (snd fed)) \<and>
            decoded = map snd (e_generationPackets e) \<and>
            length decoded = unat (e_generationSize e) \<and>
            set decoded = snd ` set (e_generationPackets e)"
proof -
  obtain d where f: "feed (new_decoder (e_generationSize e) (e_packetSize e))
        (fst (generate_many e rnds)) = (replicate (unat (e_generationSize e)) True, d)"
    and dec: "m_decoded d" and pk: "m_decodedPackets d = map snd (e_generationPackets e)"
    and g: "m_generationSize d = e_generationSize e"
    and dA: "dims (unat (e_generationSize e)) (unat (e_generationSize e)) (m_coefficients d)"
    and inj: "inj_mat (unat (e_generationSize e)) (m_coefficients d)"
    using encoder_decoder_state [OF assms] by blast
  have "CalculateRank d = unat (m_generationSize d)"
    using dA inj by (intro CalculateRank_full) (simp_all add: g)
  then have cd: "fst (CanDecode d)"
    by (simp add: CanDecode_fst)
  have gd: "fst (GetDecodedPackets d) = map snd (e_generationPackets e)"
    using dec pk by (simp add: GetDecodedPackets_def)
  show ?thesis
    using cd assms(4) by (simp add: Let_def f gd)
qed

theorem round_trip_witness:
  "fst (feed (new_decoder 2 2)
          (fst (generate_many
             \<lparr>e_generationSize = 2, e_packetSize = 2, e_currentGeneration = 0,
              e_generationPackets = [(0, [1, 2]), (1, [3, 4])]\<rparr>
             [nth [1, 1], nth [0, 1]]))) = [True, True] \<and>
   fst (CanDecode (snd (feed (new_decoder 2 2)
          (fst (generate_many
             \<lparr>e_generationSize = 2, e_packetSize = 2, e_currentGeneration = 0,
              e_generationPackets = [(0, [1, 2]), (1, [3, 4])]\<rparr>
             [nth [1, 1], nth [0, 1]]))))) \<and>
   fst (GetDecodedPackets (snd (feed (new_decoder 2 2)
          (fst (generate_many
             \<lparr>e_generationSize = 2, e_packetSize = 2, e_currentGeneration = 0,
              e_generationPackets = [(0, [1, 2]), (1, [3, 4])]\<rparr>
             [nth [1, 1], nth [0, 1]]))))) = [[1, 2], [3, 4]]"
proof -
  let ?e = "\<lparr>e_generationSize = 2, e_packetSize = 2, e_currentGeneration = 0,
              e_generationPackets = [(0, [1, 2]), (1, [3, 4])]\<rparr>"
  have n: "unat (2 :: uint16) = Suc (Suc 0)" by simp
  have u: "[0..<Suc (Suc 0)] = [0, Suc 0]" by (simp add: upt_rec)
  have "mat_mult (Suc (Suc 0)) [[1, 1], [0, 1]]
       (map (\<lambda>rnd. map rnd [0, Suc 0]) [nth [1, 1], nth [0, 1]]) = identity (Suc (Suc 0))"
    by (simp add: mat_mult_def identity_def Multiply_one_left Multiply_zero_left
        Multiply_zero_right Add_def)
  then have m: "mat_mult (unat (e_generationSize ?e)) [[1, 1], [0, 1]]
       (map (\<lambda>rnd. map rnd [0..<unat (e_generationSize ?e)]) [nth [1, 1], nth [0, 1]]) =
     identity (unat (e_generationSize ?e))"
    by (simp only: NetworkCodingEncoder.select_convs n u)
  show ?thesis
    using round_trip [of ?e "[nth [1, 1], nth [0, 1]]" "[[1, 1], [0, 1]]", OF _ _ _ _ _ _ m]
    by (simp add: Let_def replicate_2)
qed

end
